theory Spec2Isabelle
  imports Complex_Main "HOL-Library.Word"
begin

section \<open>Pixel buffers and JavaScript numbers\<close>

text \<open>
  An \<open>ImageData\<close> is read by \<open>stitcher.ts\<close> only through its \<open>data\<close> field, a
  \<open>Uint8ClampedArray\<close> of RGBA bytes in row-major order. The fields \<open>width\<close> and
  \<open>height\<close> of the browser object are never read by the code, which receives the
  dimensions \<open>w\<close> and \<open>h\<close> as separate arguments.
\<close>

record ImageData =
  data :: "8 word list"

text \<open>
  \<open>d[i]\<close> on a typed array: the byte as a number, or \<open>undefined\<close> (here \<open>None\<close>)
  when the index is outside the array. In the arithmetic below \<open>undefined\<close> becomes
  \<open>NaN\<close>, which is again \<open>None\<close>: a value of type \<open>int option\<close> is a JavaScript
  number that is an integer or \<open>NaN\<close>.
\<close>

definition byteAt :: "8 word list \<Rightarrow> int \<Rightarrow> int option" where
  "byteAt d i = (if 0 \<le> i \<and> i < int (length d) then Some (uint (d ! nat i)) else None)"

text \<open>\<open>a - b\<close>, \<open>a + b\<close> and \<open>Math.abs(a)\<close>, with \<open>NaN\<close> absorbing.\<close>

fun jsSub :: "int option \<Rightarrow> int option \<Rightarrow> int option" where
  "jsSub (Some a) (Some b) = Some (a - b)"
| "jsSub _ _ = None"

fun jsAdd :: "int option \<Rightarrow> int option \<Rightarrow> int option" where
  "jsAdd (Some a) (Some b) = Some (a + b)"
| "jsAdd _ _ = None"

fun jsAbs :: "int option \<Rightarrow> int option" where
  "jsAbs (Some a) = Some \<bar>a\<bar>"
| "jsAbs None = None"

text \<open>
  The running minimum \<open>minDiff\<close> starts at \<open>Infinity\<close> and is afterwards only ever
  assigned a score that passed the test \<open>score < minDiff\<close>, hence never \<open>NaN\<close>.
\<close>

datatype minimum = Infinity | Finite int

text \<open>\<open>score < minDiff\<close>: false when the score is \<open>NaN\<close>.\<close>

fun jsLess :: "int option \<Rightarrow> minimum \<Rightarrow> bool" where
  "jsLess None m = False"
| "jsLess (Some s) Infinity = True"
| "jsLess (Some s) (Finite m) = (s < m)"

text \<open>\<open>minDiff > c\<close> for an integer constant \<open>c\<close>.\<close>

fun exceeds :: "minimum \<Rightarrow> int \<Rightarrow> bool" where
  "exceeds Infinity c = True"
| "exceeds (Finite m) c = (c < m)"

section \<open>The offset estimator \<open>findOffset\<close>\<close>

text \<open>
  One execution of the body of the innermost loop: the term added to \<open>diff\<close> for
  column \<open>x\<close> and row offset \<open>k\<close>.
\<close>

definition pixelDiff ::
  "ImageData \<Rightarrow> ImageData \<Rightarrow> int \<Rightarrow> int \<Rightarrow> int \<Rightarrow> int \<Rightarrow> int \<Rightarrow> int option" where
  "pixelDiff prev cur w signatureY scanY x k =
     (let prevIdx = ((signatureY + k) * w + x) * 4;
          currIdx = ((scanY + k) * w + x) * 4;
          rD = jsSub (byteAt (data prev) prevIdx) (byteAt (data cur) currIdx);
          gD = jsSub (byteAt (data prev) (prevIdx + 1)) (byteAt (data cur) (currIdx + 1));
          bD = jsSub (byteAt (data prev) (prevIdx + 2)) (byteAt (data cur) (currIdx + 2))
      in jsAdd (jsAdd (jsAbs rD) (jsAbs gD)) (jsAbs bD))"

text \<open>\<open>for (let k = 0; k < searchHeight; k += 5)\<close>, started at \<open>k\<close> with \<open>diff\<close>.\<close>

function rowLoop ::
  "ImageData \<Rightarrow> ImageData \<Rightarrow> int \<Rightarrow> int \<Rightarrow> int \<Rightarrow> int \<Rightarrow> int \<Rightarrow> int \<Rightarrow> int option
     \<Rightarrow> int option" where
  "rowLoop prev cur w searchHeight signatureY scanY x k diff =
     (if k < searchHeight
      then rowLoop prev cur w searchHeight signatureY scanY x (k + 5)
             (jsAdd diff (pixelDiff prev cur w signatureY scanY x k))
      else diff)"
  by pat_completeness auto
termination
  by (relation "measure (\<lambda>(prev, cur, w, searchHeight, signatureY, scanY, x, k, diff).
                  nat (searchHeight - k))") auto

declare rowLoop.simps [simp del]

text \<open>
  \<open>colsToScan\<close>. For an integer \<open>w\<close> the products \<open>w * 0.5\<close>, \<open>w * 0.25\<close> and
  \<open>w * 0.75\<close> are exact in double precision, so \<open>Math.floor\<close> of them is the
  integer division written here.
\<close>

definition colsToScan :: "int \<Rightarrow> int list" where
  "colsToScan w = [w div 2, w div 4, (3 * w) div 4]"

text \<open>The dissimilarity \<open>diff\<close> of one candidate position \<open>scanY\<close>: both inner loops.\<close>

definition dissimilarity ::
  "ImageData \<Rightarrow> ImageData \<Rightarrow> int \<Rightarrow> int \<Rightarrow> int \<Rightarrow> int \<Rightarrow> int option" where
  "dissimilarity prev cur w searchHeight signatureY scanY =
     fold (\<lambda>x diff. rowLoop prev cur w searchHeight signatureY scanY x 0 diff)
          (colsToScan w) (Some 0)"

text \<open>The penalised score of one candidate: \<open>diff + currentOffset * penaltyPerCc\<close>.\<close>

definition penaltyPerCc :: int where
  "penaltyPerCc = 5"

definition score ::
  "ImageData \<Rightarrow> ImageData \<Rightarrow> int \<Rightarrow> int \<Rightarrow> int \<Rightarrow> int \<Rightarrow> int option" where
  "score prev cur w searchHeight signatureY scanY =
     (let diff = dissimilarity prev cur w searchHeight signatureY scanY;
          currentOffset = signatureY - scanY
      in jsAdd diff (Some (currentOffset * penaltyPerCc)))"

text \<open>
  \<open>for (let scanY = signatureY; scanY >= minScanY; scanY -= 2)\<close>, started at \<open>scanY\<close>
  with the pair \<open>(bestOffset, minDiff)\<close>.
\<close>

function scanLoop ::
  "ImageData \<Rightarrow> ImageData \<Rightarrow> int \<Rightarrow> int \<Rightarrow> int \<Rightarrow> int \<Rightarrow> int \<Rightarrow> int \<times> minimum
     \<Rightarrow> int \<times> minimum" where
  "scanLoop prev cur w searchHeight signatureY minScanY scanY (bestOffset, minDiff) =
     (if scanY \<ge> minScanY
      then (case score prev cur w searchHeight signatureY scanY of
              None \<Rightarrow> scanLoop prev cur w searchHeight signatureY minScanY (scanY - 2)
                        (bestOffset, minDiff)
            | Some s \<Rightarrow>
                if jsLess (Some s) minDiff
                then scanLoop prev cur w searchHeight signatureY minScanY (scanY - 2)
                       (signatureY - scanY, Finite s)
                else scanLoop prev cur w searchHeight signatureY minScanY (scanY - 2)
                       (bestOffset, minDiff))
      else (bestOffset, minDiff))"
  by pat_completeness auto
termination
  by (relation "measure (\<lambda>(prev, cur, w, searchHeight, signatureY, minScanY, scanY, st).
                  nat (scanY - minScanY + 1))") auto

declare scanLoop.simps [simp del]

text \<open>
  The geometry of the search. \<open>Math.floor(n * 0.2)\<close> for an integer \<open>n\<close> is \<open>n div 5\<close>:
  the double nearest to \<open>0.2\<close> is \<open>0.2 * (1 + 2^-54)\<close>, and the rounded product is
  the exact fifth whenever 5 divides \<open>n\<close>. \<open>Math.floor(h * 0.5)\<close> is \<open>h div 2\<close>.
\<close>

definition searchHeightOf :: "int \<Rightarrow> int \<Rightarrow> int \<Rightarrow> int" where
  "searchHeightOf h cropTop cropBottom = (h - cropTop - cropBottom) div 5"

definition signatureYOf :: "int \<Rightarrow> int \<Rightarrow> int \<Rightarrow> int" where
  "signatureYOf h cropTop cropBottom = h - cropBottom - searchHeightOf h cropTop cropBottom"

definition maxScrollOf :: "int \<Rightarrow> int" where
  "maxScrollOf h = h div 2"

definition minScanYOf :: "int \<Rightarrow> int \<Rightarrow> int \<Rightarrow> int" where
  "minScanYOf h cropTop cropBottom =
     max cropTop (signatureYOf h cropTop cropBottom - maxScrollOf h)"

text \<open>The state \<open>(bestOffset, minDiff)\<close> when the scan loop of \<open>findOffset\<close> is left.\<close>

definition scanResult ::
  "ImageData \<Rightarrow> ImageData \<Rightarrow> int \<Rightarrow> int \<Rightarrow> int \<Rightarrow> int \<Rightarrow> int \<times> minimum" where
  "scanResult prev cur w h cropTop cropBottom =
     scanLoop prev cur w (searchHeightOf h cropTop cropBottom)
       (signatureYOf h cropTop cropBottom) (minScanYOf h cropTop cropBottom)
       (signatureYOf h cropTop cropBottom) (0, Infinity)"

definition findOffset :: "ImageData \<Rightarrow> ImageData \<Rightarrow> int \<Rightarrow> int \<Rightarrow> int \<Rightarrow> int \<Rightarrow> int" where
  "findOffset prev cur w h cropTop cropBottom =
     (if searchHeightOf h cropTop cropBottom < 10 then 0
      else (case scanResult prev cur w h cropTop cropBottom of
              (bestOffset, minDiff) \<Rightarrow> if exceeds minDiff 8000 then 0 else bestOffset))"

section \<open>Double-precision arithmetic\<close>

text \<open>
  A JavaScript number is an IEEE 754 binary64 value. The finite ones are modelled by
  the real numbers they denote. The result of \<open>+\<close>, \<open>*\<close> and \<open>/\<close> on them is the
  exact result rounded to the nearest double, a tie going to the double with the even
  significand; decimal literals are rounded in the same way.
\<close>

text \<open>The integer nearest to \<open>r\<close>, the even one of the two when \<open>r\<close> lies midway.\<close>

definition roundEven :: "real \<Rightarrow> int" where
  "roundEven r =
     (let n = \<lfloor>r\<rfloor>; f = r - of_int n
      in if f < 1 / 2 then n else if 1 / 2 < f then n + 1 else if even n then n else n + 1)"

text \<open>
  The binary exponent of \<open>x\<close>: the largest \<open>e\<close> from \<open>-1022\<close> to \<open>1023\<close> with
  \<open>2 ^ e \<le> |x|\<close>, and \<open>-1022\<close> for the subnormal numbers and zero.
\<close>

definition exponentOf :: "real \<Rightarrow> int" where
  "exponentOf x = Max (insert (- 1022) {e \<in> {- 1022..1023}. 2 powi e \<le> \<bar>x\<bar>})"

text \<open>The distance of neighbouring doubles at \<open>x\<close>: 52 fraction bits below the exponent.\<close>

definition ulpOf :: "real \<Rightarrow> real" where
  "ulpOf x = 2 powi (exponentOf x - 52)"

text \<open>
  Rounding to the nearest double, ties to even. For \<open>|x| \<ge> 2 ^ 1024 - 2 ^ 970\<close> the
  result in JavaScript is an infinity, which is not modelled; every number that the
  code below rounds is at most 100 or below \<open>duration + 1\<close>.
\<close>

definition roundDouble :: "real \<Rightarrow> real" where
  "roundDouble x = of_int (roundEven (x / ulpOf x)) * ulpOf x"

text \<open>\<open>a + b\<close>, \<open>a * b\<close> and \<open>a / b\<close> (for \<open>b \<noteq> 0\<close>) on doubles.\<close>

definition dblAdd :: "real \<Rightarrow> real \<Rightarrow> real" where
  "dblAdd a b = roundDouble (a + b)"

definition dblMul :: "real \<Rightarrow> real \<Rightarrow> real" where
  "dblMul a b = roundDouble (a * b)"

definition dblDiv :: "real \<Rightarrow> real \<Rightarrow> real" where
  "dblDiv a b = roundDouble (a / b)"

section \<open>The video element\<close>

text \<open>
  What the code reads from the \<open>HTMLVideoElement\<close>: its dimensions, its duration in
  seconds and, after a seek to time \<open>t\<close> has completed, the frame shown.
  \<open>frameAt v t\<close> is that frame as \<open>getImageData(0, 0, width, height)\<close> returns it
  after \<open>drawImage(video, 0, 0)\<close>, which is what \<open>getFrameData\<close> computes. The
  dimensions are non-negative integers; the duration is a finite double. (For a stream
  of unknown length the duration is \<open>Infinity\<close> and the sampling loop of
  \<open>stitchVideo\<close> does not end.)
\<close>

record Video =
  videoWidth :: int
  videoHeight :: int
  duration :: real
  frameAt :: "real \<Rightarrow> ImageData"

text \<open>
  The object type \<open>{ top: number; bottom: number }\<close>, which is both the optional
  \<open>cropMask\<close> of \<open>StitchOptions\<close> and the result of \<open>detectStaticRegions\<close>.
\<close>

record CropMask =
  maskTop :: int
  maskBottom :: int

section \<open>The static region detector \<open>detectStaticRegions\<close>\<close>















section \<open>The canvas\<close>

text \<open>
  A canvas is its \<open>width\<close> and \<open>height\<close> attributes and its bitmap, kept as the list
  of its pixel rows from the top, each row being its RGBA bytes. The canvases and the
  video of one run all have the same width and every \<open>drawImage\<close> call copies
  full-width rows without scaling, so the bitmap operations are modelled on rows.
\<close>

type_synonym pixelRow = "8 word list"

record Canvas =
  width :: int
  height :: int
  bitmap :: "pixelRow list"

text \<open>A row of transparent black pixels.\<close>

definition blankRow :: "int \<Rightarrow> pixelRow" where
  "blankRow w = replicate (nat (4 * w)) 0"

text \<open>\<open>document.createElement("canvas")\<close>: 300 by 150 transparent black pixels.\<close>

definition createCanvas :: Canvas where
  "createCanvas = \<lparr>width = 300, height = 150, bitmap = replicate 150 (blankRow 300)\<rparr>"

text \<open>
  Assigning \<open>canvas.width\<close> or \<open>canvas.height\<close> clears the bitmap to transparent
  black at the new size. A negative value sets the attribute to its default.
\<close>

definition setWidth :: "int \<Rightarrow> Canvas \<Rightarrow> Canvas" where
  "setWidth n c =
     (let w = (if 0 \<le> n then n else 300)
      in \<lparr>width = w, height = height c, bitmap = replicate (nat (height c)) (blankRow w)\<rparr>)"

definition setHeight :: "int \<Rightarrow> Canvas \<Rightarrow> Canvas" where
  "setHeight n c =
     (let h = (if 0 \<le> n then n else 150)
      in \<lparr>width = width c, height = h, bitmap = replicate (nat h) (blankRow (width c))\<rparr>)"

text \<open>The pixel rows of a frame of \<open>w\<close> by \<open>h\<close> pixels.\<close>

definition imageRows :: "int \<Rightarrow> int \<Rightarrow> ImageData \<Rightarrow> pixelRow list" where
  "imageRows w h img =
     map (\<lambda>y. take (nat (4 * w)) (drop (y * nat (4 * w)) (data img))) [0..<nat h]"

text \<open>
  \<open>ctx.drawImage(image, 0, sy, width, sHeight, 0, dy, width, sHeight)\<close> for an opaque
  or freshly cleared destination: the rows \<open>sy \<le> s < sy + sHeight\<close> of the source
  replace the rows from \<open>dy\<close> on of the canvas. Source rows outside the image are
  clipped away and leave the destination rows as they are, as do rows that fall
  outside the canvas.
\<close>

definition drawImage :: "pixelRow list \<Rightarrow> int \<Rightarrow> int \<Rightarrow> int \<Rightarrow> Canvas \<Rightarrow> Canvas" where
  "drawImage src sy sHeight dy c =
     c\<lparr>bitmap :=
         map (\<lambda>y. let s = sy + (int y - dy)
                  in if dy \<le> int y \<and> int y < dy + sHeight \<and> 0 \<le> s \<and> s < int (length src)
                     then src ! nat s else bitmap c ! y)
             [0..<length (bitmap c)]\<rparr>"

text \<open>\<open>ctx.drawImage(canvas, 0, 0)\<close>: the whole source at the origin.\<close>

definition drawCanvas :: "Canvas \<Rightarrow> Canvas \<Rightarrow> Canvas" where
  "drawCanvas src c = drawImage (bitmap src) 0 (int (length (bitmap src))) 0 c"

section \<open>The pipeline \<open>stitchVideo\<close>\<close>

text \<open>
  The variables of \<open>stitchVideo\<close> that change during a run, the seek position of the
  video, and the arguments of the calls of \<open>onProgress\<close> so far, oldest first.
\<close>

record StitchState =
  masterCanvas :: Canvas
  lastFrameData :: "ImageData option"
  currentY :: int
  currentTime :: real
  progressCalls :: "real list"

text \<open>
  The body of \<open>if (offset > 0)\<close>: copy the master canvas to a temporary canvas, grow
  the master canvas by \<open>scrollAmount\<close>, draw the copy back, and draw the rows
  \<open>height - scrollAmount - cropBottom\<close> and following of the current frame below it.
\<close>

definition stripSourceY :: "int \<Rightarrow> int \<Rightarrow> int \<Rightarrow> int" where
  "stripSourceY h scrollAmount cropBottom = h - scrollAmount - cropBottom"

definition appendStrip :: "int \<Rightarrow> int \<Rightarrow> int \<Rightarrow> ImageData \<Rightarrow> int \<Rightarrow> Canvas \<Rightarrow> Canvas" where
  "appendStrip w h cropBottom frameData offset master =
     (let scrollAmount = offset;
          newHeight = height master + scrollAmount;
          tempCanvas = drawCanvas master (setHeight (height master) (setWidth w createCanvas));
          master1 = setHeight newHeight master;
          master2 = drawCanvas tempCanvas master1
      in drawImage (imageRows w h frameData) (stripSourceY h scrollAmount cropBottom) scrollAmount
           (height master2 - scrollAmount) master2)"

text \<open>
  The sampling interval \<open>step\<close> in seconds: the literal \<open>0.1\<close>, which is the double
  nearest to one tenth.
\<close>

definition step :: real where
  "step = roundDouble (1 / 10)"

text \<open>
  One iteration of the sampling loop, at seek time \<open>time\<close>. The argument of
  \<open>onProgress\<close> is \<open>(time / duration) * 100\<close> in double arithmetic. The master canvas
  is empty only for \<open>cropBottom = height\<close>, and then \<open>offset\<close> is 0, so \<open>drawImage\<close>
  from it does not throw here.
\<close>

definition loopBody :: "Video \<Rightarrow> int \<Rightarrow> int \<Rightarrow> real \<Rightarrow> StitchState \<Rightarrow> StitchState" where
  "loopBody video cropTop cropBottom time s =
     (let w = videoWidth video;
          h = videoHeight video;
          s1 = s\<lparr>progressCalls := progressCalls s @ [dblMul (dblDiv time (duration video)) 100],
                 currentTime := time\<rparr>;
          frameData = frameAt video time;
          s2 = (case lastFrameData s1 of
                  None \<Rightarrow> s1
                | Some lastFrame \<Rightarrow>
                    let offset = findOffset lastFrame frameData w h cropTop cropBottom
                    in if offset > 0
                       then s1\<lparr>masterCanvas :=
                                  appendStrip w h cropBottom frameData offset (masterCanvas s1),
                               currentY := currentY s1 + offset\<rparr>
                       else s1)
      in s2\<lparr>lastFrameData := Some frameData\<rparr>)"

text \<open>
  \<open>for (let time = step; time < duration; time += step)\<close>, started at \<open>time\<close>. The
  addition is rounded, so for a huge duration \<open>time\<close> stops growing and the loop does
  not end: the result is \<open>None\<close> then, and \<open>Some\<close> of the state after the loop
  otherwise.
\<close>

partial_function (option) stitchLoop ::
  "Video \<Rightarrow> int \<Rightarrow> int \<Rightarrow> real \<Rightarrow> StitchState \<Rightarrow> StitchState option" where
  "stitchLoop video cropTop cropBottom time s =
     (if time < duration video
      then stitchLoop video cropTop cropBottom (dblAdd time step)
             (loopBody video cropTop cropBottom time s)
      else Some s)"

declare stitchLoop.simps [code]

text \<open>The state before the loop: the first frame without its footer rows.\<close>

definition initialState :: "Video \<Rightarrow> int \<Rightarrow> StitchState" where
  "initialState video cropBottom =
     (let w = videoWidth video;
          h = videoHeight video;
          master0 = setHeight h (setWidth w createCanvas);
          master1 = setHeight (h - cropBottom) master0;
          master2 = drawImage (imageRows w h (frameAt video 0)) 0 (h - cropBottom) 0 master1
      in \<lparr>masterCanvas = master2, lastFrameData = Some (frameAt video 0),
          currentY = h - cropBottom, currentTime = 0, progressCalls = []\<rparr>)"

text \<open>The exceptions that end a run of \<open>stitchVideo\<close> early.\<close>

datatype failure = NoContext | IndexSizeError | InvalidStateError

text \<open>
  The final step: append the footer of the frame at the last seek position.
  \<open>drawImage\<close> throws an \<open>InvalidStateError\<close> when its source is a canvas of width or
  height 0; this happens at the copy to the temporary canvas when the master canvas
  is empty, that is for \<open>cropBottom = height\<close>.
\<close>

definition appendFooter :: "Video \<Rightarrow> int \<Rightarrow> StitchState \<Rightarrow> failure + StitchState" where
  "appendFooter video cropBottom s =
     (if cropBottom > 0
      then let w = videoWidth video;
               h = videoHeight video;
               master = masterCanvas s;
               footerHeight = cropBottom;
               newHeight = height master + footerHeight
           in if width master = 0 \<or> height master = 0 then Inl InvalidStateError
              else let tempCanvas = drawCanvas master
                                      (setHeight (height master) (setWidth w createCanvas));
                       master1 = setHeight newHeight master;
                       master2 = drawCanvas tempCanvas master1
                   in Inr (s\<lparr>masterCanvas :=
                               drawImage (imageRows w h (frameAt video (currentTime s)))
                                 (h - cropBottom) cropBottom (newHeight - footerHeight) master2\<rparr>)
      else Inr s)"

text \<open>
  \<open>stitchVideo\<close>. \<open>cropMask?.top || 0\<close> is the field, or 0 without a mask. The field
  \<open>videoUrl\<close> stands for the video that the URL loads, and \<open>hasContext\<close> says
  whether \<open>getContext("2d")\<close> returns a context. The result is
  \<^item> \<open>None\<close> when the sampling loop does not end;
  \<^item> \<open>Some (Inl e)\<close> when the run ends with the exception \<open>e\<close>: without a context
    at once, with \<open>IndexSizeError\<close> from \<open>getImageData\<close> in the first
    \<open>getFrameData\<close> for a video of width or height 0, or with the
    \<open>InvalidStateError\<close> of the final step;
  \<^item> \<open>Some (Inr s)\<close> for a complete run, where the master canvas of \<open>s\<close> is the
    image that is returned encoded and \<open>progressCalls s\<close> are all the calls of
    \<open>onProgress\<close>, the last one being \<open>onProgress(100)\<close>.
\<close>

record StitchOptions =
  videoUrl :: Video
  cropMask :: "CropMask option"

definition stitchVideo :: "bool \<Rightarrow> StitchOptions \<Rightarrow> (failure + StitchState) option" where
  "stitchVideo hasContext options =
     (let cropTop = (case cropMask options of None \<Rightarrow> 0 | Some m \<Rightarrow> maskTop m);
          cropBottom = (case cropMask options of None \<Rightarrow> 0 | Some m \<Rightarrow> maskBottom m);
          video = videoUrl options
      in if \<not> hasContext then Some (Inl NoContext)
         else if videoWidth video = 0 \<or> videoHeight video = 0 then Some (Inl IndexSizeError)
         else case stitchLoop video cropTop cropBottom step (initialState video cropBottom) of
                None \<Rightarrow> None
              | Some s1 \<Rightarrow>
                  (case appendFooter video cropBottom s1 of
                     Inl e \<Rightarrow> Some (Inl e)
                   | Inr s2 \<Rightarrow> Some (Inr (s2\<lparr>progressCalls := progressCalls s2 @ [100]\<rparr>))))"

section \<open>Specification vocabulary for the search\<close>

text \<open>
  The positions \<open>scanY\<close> that the scan loop visits when started at \<open>scanY\<close>: every
  second row from \<open>scanY\<close> down to \<open>minScanY\<close>.
\<close>

definition candidates :: "int \<Rightarrow> int \<Rightarrow> int set" where
  "candidates minScanY scanY = {y. minScanY \<le> y \<and> y \<le> scanY \<and> even (scanY - y)}"

text \<open>
  The postcondition of the scan loop run over the candidate set \<open>C\<close> from the state
  \<open>st\<close>, for a score function \<open>sc\<close>: either no candidate had a score below the
  running minimum and the state is unchanged, or the result holds the least score,
  taken at the candidate of largest \<open>scanY\<close> (smallest offset) that has it.
\<close>

definition scanPost ::
  "(int \<Rightarrow> int option) \<Rightarrow> int \<Rightarrow> int set \<Rightarrow> int \<times> minimum \<Rightarrow> int \<times> minimum \<Rightarrow> bool" where
  "scanPost sc signatureY C st r =
     ((r = st \<and> (\<forall>y\<in>C. \<not> jsLess (sc y) (snd st)))
      \<or> (\<exists>v. snd r = Finite v \<and> jsLess (Some v) (snd st)
            \<and> signatureY - fst r \<in> C \<and> sc (signatureY - fst r) = Some v
            \<and> (\<forall>y\<in>C. \<forall>u. sc y = Some u \<longrightarrow> v \<le> u)
            \<and> (\<forall>y\<in>C. sc y = Some v \<longrightarrow> y \<le> signatureY - fst r)))"

text \<open>The row offsets \<open>k\<close> that the innermost loop visits when started at \<open>k\<close>.\<close>

definition sampledRows :: "int \<Rightarrow> int \<Rightarrow> int set" where
  "sampledRows searchHeight k = {k'. k \<le> k' \<and> k' < searchHeight \<and> 5 dvd (k' - k)}"

text \<open>The number of iterations of the innermost loop when started at \<open>k\<close>.\<close>

definition rowCount :: "int \<Rightarrow> int \<Rightarrow> int" where
  "rowCount sh k = (if k < sh then (sh - k + 4) div 5 else 0)"

text \<open>
  The colour of the pixel in column \<open>x\<close> of row \<open>y\<close> of a frame of width \<open>w\<close>, as its
  red, green and blue bytes; \<open>None\<close> when one of them is outside the buffer.
\<close>

definition pixelAt :: "ImageData \<Rightarrow> int \<Rightarrow> int \<Rightarrow> int \<Rightarrow> (int \<times> int \<times> int) option" where
  "pixelAt img w x y =
     (let idx = (y * w + x) * 4
      in case (byteAt (data img) idx, byteAt (data img) (idx + 1), byteAt (data img) (idx + 2)) of
           (Some r, Some g, Some b) \<Rightarrow> Some (r, g, b)
         | _ \<Rightarrow> None)"

text \<open>Every pixel of the rows \<open>y0 \<le> y < y1\<close> has the colour \<open>rgb\<close>.\<close>

definition uniformRegion :: "ImageData \<Rightarrow> int \<Rightarrow> int \<Rightarrow> int \<Rightarrow> int \<times> int \<times> int \<Rightarrow> bool" where
  "uniformRegion img w y0 y1 rgb = (\<forall>y\<in>{y0..<y1}. \<forall>x\<in>{0..<w}. pixelAt img w x y = Some rgb)"

text \<open>The sum of the absolute channel differences of two colours.\<close>

definition colourDistance :: "int \<times> int \<times> int \<Rightarrow> int \<times> int \<times> int \<Rightarrow> int" where
  "colourDistance p q =
     (case p of (r1, g1, b1) \<Rightarrow> case q of (r2, g2, b2) \<Rightarrow> \<bar>r1 - r2\<bar> + \<bar>g1 - g2\<bar> + \<bar>b1 - b2\<bar>)"

section \<open>Specification vocabulary for the compositor\<close>

text \<open>
  The bitmap of a canvas has as many rows as its \<open>height\<close> attribute says. Every
  canvas that the code builds is of this kind.
\<close>

definition wellFormed :: "Canvas \<Rightarrow> bool" where
  "wellFormed c = (0 \<le> height c \<and> length (bitmap c) = nat (height c))"

text \<open>
  \<open>N\<close> appends in a row: for each pair of a current frame and a positive offset, in
  order, the body of \<open>if (offset > 0)\<close> is run once.
\<close>

definition appendAll :: "int \<Rightarrow> int \<Rightarrow> int \<Rightarrow> (ImageData \<times> int) list \<Rightarrow> Canvas \<Rightarrow> Canvas" where
  "appendAll w h cropBottom strips master =
     fold (\<lambda>(frameData, offset) m. appendStrip w h cropBottom frameData offset m) strips master"

text \<open>
  The invariant of the sampling loop before the iteration at \<open>time\<close>: the time is a
  non-negative double, and the progress values reported so far are in order, lie
  between 0 and 100 and do not exceed the value that belongs to \<open>time\<close>.
\<close>

definition progressInv :: "Video \<Rightarrow> real \<Rightarrow> StitchState \<Rightarrow> bool" where
  "progressInv video time s =
     (0 \<le> time \<and> roundDouble time = time \<and> sorted (progressCalls s)
      \<and> (\<forall>p\<in>set (progressCalls s).
            0 \<le> p \<and> p \<le> 100 \<and> p \<le> dblMul (dblDiv time (duration video)) 100))"

section \<open>Example frames and videos\<close>

text \<open>
  A frame of \<open>w\<close> by \<open>h\<close> pixels whose row \<open>y\<close> has every byte equal to
  \<open>4 * (y + shift)\<close>: a vertical ramp, shown scrolled up by \<open>shift\<close> rows.
\<close>

definition rampFrame :: "nat \<Rightarrow> nat \<Rightarrow> nat \<Rightarrow> ImageData" where
  "rampFrame w h shift =
     \<lparr>data = map (\<lambda>i. of_nat (4 * (i div (4 * w) + shift))) [0..<4 * w * h]\<rparr>"

text \<open>
  A frame of width \<open>w\<close> made of \<open>h1\<close> rows of bytes \<open>c1\<close> above \<open>h2\<close> rows of
  bytes \<open>c2\<close>; with \<open>h2 = 0\<close> a frame of one colour.
\<close>

definition bandFrame :: "nat \<Rightarrow> nat \<Rightarrow> 8 word \<Rightarrow> nat \<Rightarrow> 8 word \<Rightarrow> ImageData" where
  "bandFrame w h1 c1 h2 c2 = \<lparr>data = replicate (4 * w * h1) c1 @ replicate (4 * w * h2) c2\<rparr>"

text \<open>A video that shows the frame \<open>f\<close> at every time.\<close>

definition stillVideo :: "int \<Rightarrow> int \<Rightarrow> real \<Rightarrow> ImageData \<Rightarrow> Video" where
  "stillVideo w h d f = \<lparr>videoWidth = w, videoHeight = h, duration = d, frameAt = (\<lambda>t. f)\<rparr>"


text \<open>
  The state after the sampling loop for a still video of one second: ten iterations,
  at the times that the repeated rounded addition of \<open>step\<close> gives.
\<close>

definition exampleRun :: StitchState where
  "exampleRun = (loopBody (stillVideo 1 50 1 (bandFrame 1 50 7 0 0)) 0 0 (9007199254740991 / 9007199254740992) (loopBody (stillVideo 1 50 1 (bandFrame 1 50 7 0 0)) 0 0 (2026619832316723 / 2251799813685248) (loopBody (stillVideo 1 50 1 (bandFrame 1 50 7 0 0)) 0 0 (7205759403792793 / 9007199254740992) (loopBody (stillVideo 1 50 1 (bandFrame 1 50 7 0 0)) 0 0 (3152519739159347 / 4503599627370496) (loopBody (stillVideo 1 50 1 (bandFrame 1 50 7 0 0)) 0 0 (5404319552844595 / 9007199254740992) (loopBody (stillVideo 1 50 1 (bandFrame 1 50 7 0 0)) 0 0 (1 / 2) (loopBody (stillVideo 1 50 1 (bandFrame 1 50 7 0 0)) 0 0 (3602879701896397 / 9007199254740992) (loopBody (stillVideo 1 50 1 (bandFrame 1 50 7 0 0)) 0 0 (1351079888211149 / 4503599627370496) (loopBody (stillVideo 1 50 1 (bandFrame 1 50 7 0 0)) 0 0 (3602879701896397 / 18014398509481984) (loopBody (stillVideo 1 50 1 (bandFrame 1 50 7 0 0)) 0 0 (3602879701896397 / 36028797018963968) (initialState (stillVideo 1 50 1 (bandFrame 1 50 7 0 0)) 0)))))))))))"

section \<open>The scan loop computes the first minimum\<close>

lemma candidates_step:
  "minScanY \<le> scanY \<Longrightarrow> candidates minScanY scanY = insert scanY (candidates minScanY (scanY - 2))"
  unfolding candidates_def by (auto; presburger)

lemma candidates_empty: "\<not> minScanY \<le> scanY \<Longrightarrow> candidates minScanY scanY = {}"
  unfolding candidates_def by auto

lemma candidates_le: "y \<in> candidates minScanY scanY \<Longrightarrow> y \<le> scanY"
  unfolding candidates_def by auto

lemma scanPost_skip:
  assumes "scanPost sc sy (candidates lo (scanY - 2)) st r" "lo \<le> scanY"
    "\<not> jsLess (sc scanY) (snd st)"
  shows "scanPost sc sy (candidates lo scanY) st r"
proof -
  from assms(1) consider
    (same) "r = st" "\<forall>y\<in>candidates lo (scanY - 2). \<not> jsLess (sc y) (snd st)"
    | (new) v where "snd r = Finite v" "jsLess (Some v) (snd st)"
      "sy - fst r \<in> candidates lo (scanY - 2)" "sc (sy - fst r) = Some v"
      "\<forall>y\<in>candidates lo (scanY - 2). \<forall>u. sc y = Some u \<longrightarrow> v \<le> u"
      "\<forall>y\<in>candidates lo (scanY - 2). sc y = Some v \<longrightarrow> y \<le> sy - fst r"
    unfolding scanPost_def by blast
  then show ?thesis
  proof cases
    case same
    then show ?thesis
      using assms(2,3) by (simp add: scanPost_def candidates_step)
  next
    case new
    have a: "\<forall>u. sc scanY = Some u \<longrightarrow> v < u \<or> v = u \<and> False"
      using assms(3) new(2) by (cases "snd st") auto
    show ?thesis
      unfolding scanPost_def candidates_step [OF assms(2)]
      apply (rule disjI2)
      apply (rule exI [of _ v])
      using new a by auto
  qed
qed

lemma scanPost_take:
  assumes "scanPost sc sy (candidates lo (scanY - 2)) (sy - scanY, Finite s) r" "lo \<le> scanY"
    "sc scanY = Some s" "jsLess (Some s) m"
  shows "scanPost sc sy (candidates lo scanY) (b, m) r"
proof -
  from assms(1) consider
    (same) "r = (sy - scanY, Finite s)"
      "\<forall>y\<in>candidates lo (scanY - 2). \<not> jsLess (sc y) (Finite s)"
    | (new) v where "snd r = Finite v" "v < s"
      "sy - fst r \<in> candidates lo (scanY - 2)" "sc (sy - fst r) = Some v"
      "\<forall>y\<in>candidates lo (scanY - 2). \<forall>u. sc y = Some u \<longrightarrow> v \<le> u"
      "\<forall>y\<in>candidates lo (scanY - 2). sc y = Some v \<longrightarrow> y \<le> sy - fst r"
    unfolding scanPost_def by auto
  then show ?thesis
  proof cases
    case same
    have le: "\<forall>y\<in>candidates lo (scanY - 2). \<forall>u. sc y = Some u \<longrightarrow> s \<le> u"
      using same(2) by fastforce
    have up: "\<forall>y\<in>candidates lo (scanY - 2). y \<le> scanY"
      using candidates_le by fastforce
    show ?thesis
      unfolding scanPost_def candidates_step [OF assms(2)]
      apply (rule disjI2)
      apply (rule exI [of _ s])
      using same(1) assms(3,4) le up by auto
  next
    case new
    have lt: "jsLess (Some v) m"
      using new(2) assms(4) by (cases m) auto
    show ?thesis
      unfolding scanPost_def candidates_step [OF assms(2)]
      apply (rule disjI2)
      apply (rule exI [of _ v])
      using new lt assms(3) by auto
  qed
qed

lemma scanLoop_post:
  "scanPost (score prev cur w sh sy) sy (candidates lo scanY) st
     (scanLoop prev cur w sh sy lo scanY st)"
proof (induction prev cur w sh sy lo scanY st rule: scanLoop.induct)
  case (1 prev cur w sh sy lo scanY b m)
  show ?case
  proof (cases "lo \<le> scanY")
    case False
    then show ?thesis
      by (simp add: scanLoop.simps scanPost_def candidates_empty)
  next
    case True
    show ?thesis
    proof (cases "score prev cur w sh sy scanY")
      case None
      then have "scanLoop prev cur w sh sy lo scanY (b, m)
                 = scanLoop prev cur w sh sy lo (scanY - 2) (b, m)"
        using True by (subst scanLoop.simps) simp
      moreover have "scanPost (score prev cur w sh sy) sy (candidates lo (scanY - 2)) (b, m)
                       (scanLoop prev cur w sh sy lo (scanY - 2) (b, m))"
        using "1.IH"(1) True None by simp
      ultimately show ?thesis
        using scanPost_skip [where sc = "score prev cur w sh sy", OF _ True] None by simp
    next
      case (Some s)
      show ?thesis
      proof (cases "jsLess (Some s) m")
        case less: True
        have "scanLoop prev cur w sh sy lo scanY (b, m)
                 = scanLoop prev cur w sh sy lo (scanY - 2) (sy - scanY, Finite s)"
          using True Some less by (subst scanLoop.simps) simp
        moreover have "scanPost (score prev cur w sh sy) sy (candidates lo (scanY - 2))
                         (sy - scanY, Finite s)
                         (scanLoop prev cur w sh sy lo (scanY - 2) (sy - scanY, Finite s))"
          using "1.IH"(2) True Some less by simp
        ultimately show ?thesis
          using scanPost_take [where sc = "score prev cur w sh sy", OF _ True Some less] by simp
      next
        case nless: False
        have "scanLoop prev cur w sh sy lo scanY (b, m)
                 = scanLoop prev cur w sh sy lo (scanY - 2) (b, m)"
          using True Some nless by (subst scanLoop.simps) simp
        moreover have "scanPost (score prev cur w sh sy) sy (candidates lo (scanY - 2)) (b, m)
                         (scanLoop prev cur w sh sy lo (scanY - 2) (b, m))"
          using "1.IH"(3) True Some nless by simp
        ultimately show ?thesis
          using scanPost_skip [where sc = "score prev cur w sh sy", OF _ True] Some nless by simp
      qed
    qed
  qed
qed


section \<open>The dissimilarity of one candidate\<close>

lemma sampledRows_step:
  "k < searchHeight \<Longrightarrow> sampledRows searchHeight k = insert k (sampledRows searchHeight (k + 5))"
  unfolding sampledRows_def by (auto; presburger)

lemma sampledRows_empty: "\<not> k < searchHeight \<Longrightarrow> sampledRows searchHeight k = {}"
  unfolding sampledRows_def by auto

lemma pixelDiff_nonneg: "pixelDiff prev cur w sy y x k = Some u \<Longrightarrow> 0 \<le> u"
  unfolding pixelDiff_def Let_def
  by (cases "byteAt (data prev) (((sy + k) * w + x) * 4)";
      cases "byteAt (data cur) (((y + k) * w + x) * 4)";
      cases "byteAt (data prev) (((sy + k) * w + x) * 4 + 1)";
      cases "byteAt (data cur) (((y + k) * w + x) * 4 + 1)";
      cases "byteAt (data prev) (((sy + k) * w + x) * 4 + 2)";
      cases "byteAt (data cur) (((y + k) * w + x) * 4 + 2)") auto

lemma pixelDiff_same: "pixelDiff f cur w sy y x k = Some u \<Longrightarrow> pixelDiff f f w sy sy x k = Some 0"
  unfolding pixelDiff_def Let_def
  by (cases "byteAt (data f) (((sy + k) * w + x) * 4)";
      cases "byteAt (data cur) (((y + k) * w + x) * 4)";
      cases "byteAt (data f) (((sy + k) * w + x) * 4 + 1)";
      cases "byteAt (data cur) (((y + k) * w + x) * 4 + 1)";
      cases "byteAt (data f) (((sy + k) * w + x) * 4 + 2)";
      cases "byteAt (data cur) (((y + k) * w + x) * 4 + 2)") auto

lemma rowLoop_None [simp]: "rowLoop prev cur w sh sy y x k None = None"
  by (induction prev cur w sh sy y x k "None :: int option" rule: rowLoop.induct)
     (subst rowLoop.simps, simp)

lemma rowLoop_Some:
  "rowLoop prev cur w sh sy y x k diff = Some r \<Longrightarrow>
     \<exists>d. diff = Some d \<and> d \<le> r \<and> (\<forall>k'\<in>sampledRows sh k. pixelDiff prev cur w sy y x k' \<noteq> None)"
proof (induction prev cur w sh sy y x k diff rule: rowLoop.induct)
  case (1 prev cur w sh sy y x k diff)
  show ?case
  proof (cases "k < sh")
    case False
    then show ?thesis using "1.prems" by (simp add: rowLoop.simps sampledRows_empty)
  next
    case True
    then have "rowLoop prev cur w sh sy y x (k + 5) (jsAdd diff (pixelDiff prev cur w sy y x k)) = Some r"
      using "1.prems" by (subst (asm) rowLoop.simps) simp
    from "1.IH" [OF True this] obtain d where
      d: "jsAdd diff (pixelDiff prev cur w sy y x k) = Some d" "d \<le> r"
         "\<forall>k'\<in>sampledRows sh (k + 5). pixelDiff prev cur w sy y x k' \<noteq> None"
      by blast
    from d(1) obtain d0 p where dp: "diff = Some d0" "pixelDiff prev cur w sy y x k = Some p" "d = d0 + p"
      by (cases diff; cases "pixelDiff prev cur w sy y x k") auto
    have "0 \<le> p" using dp(2) by (rule pixelDiff_nonneg)
    then show ?thesis
      using d dp by (simp add: sampledRows_step [OF True])
  qed
qed

lemma rowCount_step: "k < sh \<Longrightarrow> rowCount sh k = 1 + rowCount sh (k + 5)"
  unfolding rowCount_def by auto

lemma rowLoop_const:
  "\<forall>k'\<in>sampledRows sh k. pixelDiff prev cur w sy y x k' = Some c \<Longrightarrow>
     rowLoop prev cur w sh sy y x k (Some d) = Some (d + c * rowCount sh k)"
proof (induction prev cur w sh sy y x k "Some d :: int option" arbitrary: d rule: rowLoop.induct)
  case (1 prev cur w sh sy y x k)
  show ?case
  proof (cases "k < sh")
    case False
    then show ?thesis by (simp add: rowLoop.simps rowCount_def)
  next
    case True
    have pk: "pixelDiff prev cur w sy y x k = Some c"
      using "1.prems" by (simp add: sampledRows_step [OF True])
    have rest: "\<forall>k'\<in>sampledRows sh (k + 5). pixelDiff prev cur w sy y x k' = Some c"
      using "1.prems" by (simp add: sampledRows_step [OF True])
    have "rowLoop prev cur w sh sy y x k (Some d)
          = rowLoop prev cur w sh sy y x (k + 5) (Some (d + c))"
      using True pk by (subst rowLoop.simps) simp
    also have "\<dots> = Some (d + c + c * rowCount sh (k + 5))"
      using "1.hyps" [OF True _ rest] pk by simp
    finally show ?thesis
      by (simp add: rowCount_step [OF True] algebra_simps)
  qed
qed

lemma dissimilarity_Some:
  assumes "dissimilarity prev cur w sh sy y = Some r"
  shows "0 \<le> r \<and> (\<forall>x\<in>set (colsToScan w). \<forall>k\<in>sampledRows sh 0. pixelDiff prev cur w sy y x k \<noteq> None)"
proof -
  let ?row = "\<lambda>x d. rowLoop prev cur w sh sy y x 0 d"
  from assms have r3: "?row ((3 * w) div 4) (?row (w div 4) (?row (w div 2) (Some 0))) = Some r"
    by (simp add: dissimilarity_def colsToScan_def)
  from rowLoop_Some [OF r3] obtain d2 where
    d2: "?row (w div 4) (?row (w div 2) (Some 0)) = Some d2" "d2 \<le> r"
        "\<forall>k\<in>sampledRows sh 0. pixelDiff prev cur w sy y ((3 * w) div 4) k \<noteq> None"
    by blast
  from rowLoop_Some [OF d2(1)] obtain d1 where
    d1: "?row (w div 2) (Some 0) = Some d1" "d1 \<le> d2"
        "\<forall>k\<in>sampledRows sh 0. pixelDiff prev cur w sy y (w div 4) k \<noteq> None"
    by blast
  from rowLoop_Some [OF d1(1)] have
    d0: "0 \<le> d1" "\<forall>k\<in>sampledRows sh 0. pixelDiff prev cur w sy y (w div 2) k \<noteq> None"
    by auto
  show ?thesis
    using d0 d1 d2 by (simp add: colsToScan_def)
qed

lemma dissimilarity_const:
  assumes "\<forall>x\<in>set (colsToScan w). \<forall>k\<in>sampledRows sh 0. pixelDiff prev cur w sy y x k = Some c"
  shows "dissimilarity prev cur w sh sy y = Some (3 * c * rowCount sh 0)"
proof -
  have a: "\<forall>k\<in>sampledRows sh 0. pixelDiff prev cur w sy y (w div 2) k = Some c"
    and b: "\<forall>k\<in>sampledRows sh 0. pixelDiff prev cur w sy y (w div 4) k = Some c"
    and c: "\<forall>k\<in>sampledRows sh 0. pixelDiff prev cur w sy y ((3 * w) div 4) k = Some c"
    using assms by (simp_all add: colsToScan_def)
  have "dissimilarity prev cur w sh sy y
        = rowLoop prev cur w sh sy y ((3 * w) div 4) 0
            (rowLoop prev cur w sh sy y (w div 4) 0
               (rowLoop prev cur w sh sy y (w div 2) 0 (Some 0)))"
    by (simp add: dissimilarity_def colsToScan_def)
  also have "\<dots> = Some (0 + c * rowCount sh 0 + c * rowCount sh 0 + c * rowCount sh 0)"
    unfolding rowLoop_const [OF a] rowLoop_const [OF b] rowLoop_const [OF c] ..
  finally show ?thesis by simp
qed

lemma score_Some:
  "score prev cur w sh sy y = Some v \<longleftrightarrow>
     (\<exists>d. dissimilarity prev cur w sh sy y = Some d \<and> v = d + (sy - y) * 5)"
  by (cases "dissimilarity prev cur w sh sy y") (auto simp: score_def penaltyPerCc_def)


section \<open>Results of \<open>findOffset\<close>\<close>

lemma scanResult_post:
  "scanPost (score prev cur w (searchHeightOf h ct cb) (signatureYOf h ct cb))
     (signatureYOf h ct cb) (candidates (minScanYOf h ct cb) (signatureYOf h ct cb))
     (0, Infinity) (scanResult prev cur w h ct cb)"
  unfolding scanResult_def by (rule scanLoop_post)

lemma scanResult_best:
  "fst (scanResult prev cur w h ct cb) = 0 \<and> snd (scanResult prev cur w h ct cb) = Infinity
   \<or> signatureYOf h ct cb - fst (scanResult prev cur w h ct cb)
        \<in> candidates (minScanYOf h ct cb) (signatureYOf h ct cb)"
  using scanResult_post [of prev cur w h ct cb] unfolding scanPost_def by auto

lemma findOffset_cases:
  "findOffset prev cur w h ct cb = 0 \<or>
   (10 \<le> searchHeightOf h ct cb \<and> findOffset prev cur w h ct cb = fst (scanResult prev cur w h ct cb)
     \<and> (\<exists>v. snd (scanResult prev cur w h ct cb) = Finite v \<and> v \<le> 8000))"
  unfolding findOffset_def
  by (cases "scanResult prev cur w h ct cb"; cases "snd (scanResult prev cur w h ct cb)") auto


lemma findOffset_range:
  "0 \<le> findOffset prev cur w h ct cb
   \<and> (findOffset prev cur w h ct cb \<noteq> 0 \<longrightarrow>
        signatureYOf h ct cb - findOffset prev cur w h ct cb
          \<in> candidates (minScanYOf h ct cb) (signatureYOf h ct cb))"
proof -
  let ?r = "scanResult prev cur w h ct cb"
  have b: "0 \<le> fst ?r"
    using scanResult_best [of prev cur w h ct cb] candidates_le by fastforce
  have 1: "0 \<le> findOffset prev cur w h ct cb"
    using findOffset_cases [of prev cur w h ct cb] b by auto
  have 2: "findOffset prev cur w h ct cb \<noteq> 0 \<longrightarrow>
        signatureYOf h ct cb - findOffset prev cur w h ct cb
          \<in> candidates (minScanYOf h ct cb) (signatureYOf h ct cb)"
    using findOffset_cases [of prev cur w h ct cb] scanResult_best [of prev cur w h ct cb] by auto
  from 1 2 show ?thesis by blast
qed

lemma scanResult_Finite:
  assumes "scanResult prev cur w h ct cb = (b, Finite v)"
  shows "signatureYOf h ct cb - b \<in> candidates (minScanYOf h ct cb) (signatureYOf h ct cb)"
    and "score prev cur w (searchHeightOf h ct cb) (signatureYOf h ct cb) (signatureYOf h ct cb - b) = Some v"
    and "\<forall>y\<in>candidates (minScanYOf h ct cb) (signatureYOf h ct cb).
           \<forall>u. score prev cur w (searchHeightOf h ct cb) (signatureYOf h ct cb) y = Some u \<longrightarrow> v \<le> u"
    and "\<forall>y\<in>candidates (minScanYOf h ct cb) (signatureYOf h ct cb).
           score prev cur w (searchHeightOf h ct cb) (signatureYOf h ct cb) y = Some v
             \<longrightarrow> y \<le> signatureYOf h ct cb - b"
  using scanResult_post [of prev cur w h ct cb] unfolding scanPost_def assms by auto

lemma scanResult_Infinity:
  assumes "snd (scanResult prev cur w h ct cb) = Infinity"
  shows "fst (scanResult prev cur w h ct cb) = 0"
    and "\<forall>y\<in>candidates (minScanYOf h ct cb) (signatureYOf h ct cb).
           score prev cur w (searchHeightOf h ct cb) (signatureYOf h ct cb) y = None"
proof -
  let ?r = "scanResult prev cur w h ct cb"
  let ?C = "candidates (minScanYOf h ct cb) (signatureYOf h ct cb)"
  let ?sc = "score prev cur w (searchHeightOf h ct cb) (signatureYOf h ct cb)"
  from scanResult_post [of prev cur w h ct cb] assms
  have same: "?r = (0, Infinity)" "\<forall>y\<in>?C. \<not> jsLess (?sc y) Infinity"
    unfolding scanPost_def by auto
  show "fst ?r = 0" using same(1) by simp
  show "\<forall>y\<in>?C. ?sc y = None"
  proof
    fix y assume "y \<in> ?C"
    with same(2) have "\<not> jsLess (?sc y) Infinity" by blast
    then show "?sc y = None" by (cases "?sc y") auto
  qed
qed

lemma geometry:
  assumes "0 \<le> ct" "0 \<le> cb" "ct + cb < h"
  shows "ct \<le> signatureYOf h ct cb" "0 \<le> searchHeightOf h ct cb" "0 \<le> maxScrollOf h"
  using assms unfolding signatureYOf_def searchHeightOf_def maxScrollOf_def by auto

lemma candidates_ge: "y \<in> candidates minScanY scanY \<Longrightarrow> minScanY \<le> y"
  unfolding candidates_def by auto

lemma pixelDiff_pixelAt:
  assumes "pixelAt prev w x (sy + k) = Some p" "pixelAt cur w x (y + k) = Some q"
  shows "pixelDiff prev cur w sy y x k = Some (colourDistance p q)"
  using assms unfolding pixelAt_def pixelDiff_def colourDistance_def Let_def
  by (auto split: option.splits prod.splits)

lemma cols_in_range: "1 \<le> w \<Longrightarrow> x \<in> set (colsToScan w) \<Longrightarrow> x \<in> {0..<w}"
  unfolding colsToScan_def by auto

lemma sampledRows_range: "k \<in> sampledRows sh 0 \<Longrightarrow> 0 \<le> k \<and> k < sh"
  unfolding sampledRows_def by auto

subsection \<open>A signature above the frame\<close>

text \<open>
  For \<open>cropBottom = h\<close> the signature block lies above the frame: every read from
  \<open>prev\<close> is \<open>undefined\<close>, every score is \<open>NaN\<close>, and the result is 0.
\<close>

lemma scanLoop_NaN:
  assumes "\<And>y. score prev cur w sh sy y = None"
  shows "scanLoop prev cur w sh sy minScanY scanY st = st"
proof (induction "nat (scanY - minScanY + 1)" arbitrary: scanY rule: less_induct)
  case less
  obtain b m where st: "st = (b, m)"
    by (cases st)
  show ?case
  proof (cases "scanY \<ge> minScanY")
    case True
    have "scanLoop prev cur w sh sy minScanY (scanY - 2) st = st"
      using True by (intro less) simp
    then show ?thesis
      unfolding st using True assms [of scanY] by (subst scanLoop.simps) simp
  next
    case False
    then show ?thesis
      unfolding st by (subst scanLoop.simps) simp
  qed
qed

lemma dissimilarity_above_frame:
  assumes "0 < w" and "0 < sh" and "sy + 1 \<le> 0"
  shows "dissimilarity prev cur w sh sy scanY = None"
proof -
  have "sy * w \<le> - 1 * w"
    using assms by (intro mult_right_mono) simp_all
  moreover have "w div 2 < w"
    using assms by simp
  ultimately have "(sy * w + w div 2) * 4 < 0"
    by simp
  then have "pixelDiff prev cur w sy scanY (w div 2) 0 = None"
    by (simp add: pixelDiff_def Let_def byteAt_def)
  then have "rowLoop prev cur w sh sy scanY (w div 2) 0 (Some 0) = None"
    using assms by (subst rowLoop.simps) simp
  then show ?thesis
    by (simp add: dissimilarity_def colsToScan_def)
qed

lemma findOffset_empty_master:
  assumes "0 < w"
  shows "findOffset prev cur w h cropTop h = 0"
proof (cases "searchHeightOf h cropTop h < 10")
  case True
  then show ?thesis
    by (simp add: findOffset_def)
next
  case False
  let ?sh = "searchHeightOf h cropTop h"
  have sy: "signatureYOf h cropTop h = - ?sh"
    by (simp add: signatureYOf_def)
  have "score prev cur w ?sh (- ?sh) y = None" for y
    using dissimilarity_above_frame [of w ?sh "- ?sh" prev cur y] assms False
    by (simp add: score_def Let_def)
  then have "scanResult prev cur w h cropTop h = (0, Infinity)"
    unfolding scanResult_def sy by (rule scanLoop_NaN)
  then show ?thesis
    by (simp add: findOffset_def)
qed

subsection \<open>Evaluation on the example frames\<close>

lemma byteAt_nat:
  "byteAt d i = (if 0 \<le> i \<and> nat i < length d then Some (uint (d ! nat i)) else None)"
  by (auto simp: byteAt_def)

lemma byteAt_rampFrame:
  "byteAt (data (rampFrame w h s)) i =
     (if 0 \<le> i \<and> nat i < 4 * w * h
      then Some (uint (of_nat (4 * (nat i div (4 * w) + s)) :: 8 word)) else None)"
  by (simp add: byteAt_nat rampFrame_def del: of_nat_mult of_nat_add)

lemma byteAt_bandFrame:
  "byteAt (data (bandFrame w h1 c1 h2 c2)) i =
     (if 0 \<le> i \<and> nat i < 4 * w * h1 then Some (uint c1)
      else if 0 \<le> i \<and> nat i < 4 * w * h1 + 4 * w * h2 then Some (uint c2)
      else None)"
  by (auto simp: byteAt_nat bandFrame_def nth_append)

lemmas findOffset_eval =
  scanResult_def searchHeightOf_def signatureYOf_def minScanYOf_def maxScrollOf_def
  scanLoop.simps score_def dissimilarity_def colsToScan_def rowLoop.simps pixelDiff_def
  penaltyPerCc_def Let_def


lemma scanResult_ramp:
  "scanResult (rampFrame 1 50 0) (rampFrame 1 50 2) 1 50 0 0 = (2, Finite 10)"
  by (simp add: findOffset_eval byteAt_rampFrame)

lemma findOffset_ramp: "findOffset (rampFrame 1 50 0) (rampFrame 1 50 2) 1 50 0 0 = 2"
  using scanResult_ramp by (simp add: findOffset_def searchHeightOf_def)

lemma scanResult_ramp_cropped:
  "scanResult (rampFrame 1 60 0) (rampFrame 1 60 2) 1 60 5 5 = (2, Finite 10)"
  by (simp add: findOffset_eval byteAt_rampFrame)

lemma findOffset_ramp_cropped:
  "findOffset (rampFrame 1 60 0) (rampFrame 1 60 2) 1 60 5 5 = 2"
  using scanResult_ramp_cropped by (simp add: findOffset_def searchHeightOf_def)

lemma scanResult_band:
  "scanResult (bandFrame 1 80 255 0 0) (bandFrame 1 40 35 40 0) 1 80 0 0 = (40, Finite 8120)"
  by (simp add: findOffset_eval byteAt_bandFrame)

lemma dissimilarity_band:
  "dissimilarity (bandFrame 1 80 255 0 0) (bandFrame 1 40 35 40 0) 1 16 64 24 = Some 7920"
  by (simp add: findOffset_eval byteAt_bandFrame)

lemma uniformRegion_bandFrame:
  "0 \<le> y0 \<Longrightarrow> y1 \<le> int h \<Longrightarrow>
   uniformRegion (bandFrame w h c 0 c') (int w) y0 y1 (uint c, uint c, uint c)"
proof -
  assume a: "0 \<le> y0" "y1 \<le> int h"
  have "pixelAt (bandFrame w h c 0 c') (int w) x y = Some (uint c, uint c, uint c)"
    if "y \<in> {y0..<y1}" "x \<in> {0..<int w}" for x y
  proof -
    have y: "0 \<le> y" "y + 1 \<le> int h" and x: "0 \<le> x" "x + 1 \<le> int w" using that a by auto
    have "(y * int w + x) * 4 + 4 \<le> (y + 1) * int w * 4"
      using x by (simp add: algebra_simps)
    also have "\<dots> \<le> int h * int w * 4"
      using y by (intro mult_right_mono) auto
    finally have up: "(y * int w + x) * 4 + 4 \<le> int (4 * w * h)" by (simp add: algebra_simps)
    have lo: "0 \<le> (y * int w + x) * 4" using x y by simp
    show ?thesis
      unfolding pixelAt_def Let_def byteAt_bandFrame using up lo by (simp add: nat_less_iff)
  qed
  then show ?thesis unfolding uniformRegion_def by blast
qed

lemma scanResult_flat:
  "scanResult (bandFrame 1 50 7 0 0) (bandFrame 1 50 7 0 0) 1 50 0 0 = (0, Finite 0)"
  by (simp add: findOffset_eval byteAt_bandFrame)

subsection \<open>Claims about \<open>findOffset\<close>\<close>

text \<open>
  Claim C7. For every input \<open>findOffset\<close> returns a non-negative integer. When
  \<open>searchHeight = floor(0.2 * (H - cropTop - cropBottom))\<close> is less than 10 it returns
  exactly 0. Otherwise a returned value other than 0 is \<open>signatureY - scanY\<close> for a
  visited candidate \<open>scanY\<close>, and every candidate satisfies \<open>scanY \<le> signatureY\<close>
  (lemma \<open>candidates_le\<close>).
\<close>

theorem findOffset_nonneg:
  "0 \<le> findOffset prev cur w h cropTop cropBottom
   \<and> (searchHeightOf h cropTop cropBottom < 10 \<longrightarrow> findOffset prev cur w h cropTop cropBottom = 0)
   \<and> (findOffset prev cur w h cropTop cropBottom \<noteq> 0 \<longrightarrow>
        signatureYOf h cropTop cropBottom - findOffset prev cur w h cropTop cropBottom
          \<in> candidates (minScanYOf h cropTop cropBottom) (signatureYOf h cropTop cropBottom))"
proof -
  have "searchHeightOf h cropTop cropBottom < 10 \<longrightarrow> findOffset prev cur w h cropTop cropBottom = 0"
    by (simp add: findOffset_def)
  with findOffset_range [of prev cur w h cropTop cropBottom] show ?thesis by blast
qed

theorem findOffset_nonneg_witness:
  "searchHeightOf 40 0 0 < 10
   \<and> findOffset (rampFrame 1 40 0) (rampFrame 1 40 2) 1 40 0 0 = 0
   \<and> findOffset (rampFrame 1 50 0) (rampFrame 1 50 2) 1 50 0 0 \<noteq> 0
   \<and> 0 \<le> findOffset (rampFrame 1 50 0) (rampFrame 1 50 2) 1 50 0 0
   \<and> signatureYOf 50 0 0 - 2 \<in> candidates (minScanYOf 50 0 0) (signatureYOf 50 0 0)"
proof -
  have small: "searchHeightOf 40 0 0 < 10"
    by (simp add: searchHeightOf_def)
  have moved: "findOffset (rampFrame 1 50 0) (rampFrame 1 50 2) 1 50 0 0 \<noteq> 0"
    unfolding findOffset_ramp by simp
  show ?thesis
    using small moved
      findOffset_nonneg [of "rampFrame 1 40 0" "rampFrame 1 40 2" 1 40 0 0]
      findOffset_nonneg [of "rampFrame 1 50 0" "rampFrame 1 50 2" 1 50 0 0]
    unfolding findOffset_ramp by blast
qed

text \<open>
  Claim C5. For two pixel-identical frames (the same pixel buffer as \<open>prev\<close> and as
  \<open>curr\<close>) \<open>findOffset\<close> returns offset 0. This holds for every width, height and
  crop bands, in particular for \<open>0 \<le> cropTop\<close>, \<open>0 \<le> cropBottom\<close> and
  \<open>cropTop + cropBottom < H\<close>.
\<close>

theorem findOffset_identical:
  "findOffset f f w h cropTop cropBottom = 0"
proof -
  let ?sh = "searchHeightOf h cropTop cropBottom"
  let ?sy = "signatureYOf h cropTop cropBottom"
  let ?lo = "minScanYOf h cropTop cropBottom"
  let ?r = "scanResult f f w h cropTop cropBottom"
  let ?sc = "score f f w ?sh ?sy"
  from scanResult_post [of f f w h cropTop cropBottom] consider
    (same) "?r = (0, Infinity)"
    | (new) v where "snd ?r = Finite v" "?sy - fst ?r \<in> candidates ?lo ?sy"
        "?sc (?sy - fst ?r) = Some v" "\<forall>y\<in>candidates ?lo ?sy. \<forall>u. ?sc y = Some u \<longrightarrow> v \<le> u"
    unfolding scanPost_def by blast
  then show ?thesis
  proof cases
    case same
    then show ?thesis by (simp add: findOffset_def)
  next
    case new
    from new(3) obtain d where d: "dissimilarity f f w ?sh ?sy (?sy - fst ?r) = Some d"
      "v = d + (?sy - (?sy - fst ?r)) * 5"
      unfolding score_Some by blast
    from dissimilarity_Some [OF d(1)] have d0: "0 \<le> d"
      and def: "\<forall>x\<in>set (colsToScan w). \<forall>k\<in>sampledRows ?sh 0.
                  pixelDiff f f w ?sy (?sy - fst ?r) x k \<noteq> None"
      by auto
    have "\<forall>x\<in>set (colsToScan w). \<forall>k\<in>sampledRows ?sh 0. pixelDiff f f w ?sy ?sy x k = Some 0"
      using def pixelDiff_same by blast
    from dissimilarity_const [OF this] have "?sc ?sy = Some 0"
      by (simp add: score_Some)
    moreover have "?sy \<in> candidates ?lo ?sy"
      using new(2) unfolding candidates_def by auto
    ultimately have "v \<le> 0" using new(4) by blast
    moreover have "0 \<le> fst ?r"
      using new(2) candidates_le by fastforce
    ultimately have "fst ?r = 0" using d(2) d0 by auto
    then show ?thesis
      by (cases ?r) (auto simp: findOffset_def)
  qed
qed

text \<open>
  Claim C10. For \<open>0 \<le> cropTop\<close>, \<open>0 \<le> cropBottom\<close> and \<open>cropTop + cropBottom < H\<close>
  the returned offset is at most \<open>signatureY - cropTop = H - cropBottom - searchHeight -
  cropTop\<close> and at most \<open>floor(0.5 * H)\<close>. Hence the first row of the strip that the
  compositor copies, \<open>stripSourceY H offset cropBottom\<close>, is at least \<open>cropTop + searchHeight\<close>:
  the strip never reaches into the header band.
\<close>

theorem findOffset_bound:
  assumes "0 \<le> cropTop" "0 \<le> cropBottom" "cropTop + cropBottom < h"
  shows "findOffset prev cur w h cropTop cropBottom \<le> signatureYOf h cropTop cropBottom - cropTop
       \<and> signatureYOf h cropTop cropBottom - cropTop
           = h - cropBottom - searchHeightOf h cropTop cropBottom - cropTop
       \<and> findOffset prev cur w h cropTop cropBottom \<le> maxScrollOf h
       \<and> cropTop + searchHeightOf h cropTop cropBottom
           \<le> stripSourceY h (findOffset prev cur w h cropTop cropBottom) cropBottom"
proof -
  let ?off = "findOffset prev cur w h cropTop cropBottom"
  let ?sy = "signatureYOf h cropTop cropBottom"
  have lo: "?off \<noteq> 0 \<Longrightarrow> minScanYOf h cropTop cropBottom \<le> ?sy - ?off"
    using findOffset_range [of prev cur w h cropTop cropBottom] candidates_ge by blast
  have 1: "?off \<le> ?sy - cropTop"
  proof (cases "?off = 0")
    case True
    then show ?thesis using geometry(1) [OF assms] by simp
  next
    case False
    from lo [OF this] show ?thesis by (simp add: minScanYOf_def)
  qed
  have 2: "?off \<le> maxScrollOf h"
  proof (cases "?off = 0")
    case True
    then show ?thesis using geometry(3) [OF assms] by simp
  next
    case False
    from lo [OF this] show ?thesis by (simp add: minScanYOf_def)
  qed
  show ?thesis
    using 1 2 by (simp add: signatureYOf_def stripSourceY_def)
qed

theorem findOffset_bound_witness:
  "(0::int) \<le> 5 \<and> (5::int) + 5 < 60
   \<and> findOffset (rampFrame 1 60 0) (rampFrame 1 60 2) 1 60 5 5 = 2
   \<and> (2::int) \<le> signatureYOf 60 5 5 - 5
   \<and> (2::int) \<le> maxScrollOf 60
   \<and> 5 + searchHeightOf 60 5 5 \<le> stripSourceY 60 2 5"
proof -
  have h: "(0::int) \<le> 5" "(5::int) + 5 < 60" by simp_all
  from findOffset_bound [OF h(1) h(1) h(2), of "rampFrame 1 60 0" "rampFrame 1 60 2" 1]
  show ?thesis
    unfolding findOffset_ramp_cropped using h by simp
qed

text \<open>
  Claim C6. The penalised score of a candidate is its dissimilarity plus
  \<open>(signatureY - scanY) * 5\<close>. Let a candidate \<open>y\<close> have the minimal penalised
  score \<open>m\<close>. Then the offset \<open>bestOffset\<close> that the scan selects is the offset of a
  candidate with the score \<open>m\<close> and is not larger than the offset of \<open>y\<close>: of several
  candidates with equal minimal scores the scan selects the one of smallest offset
  (largest \<open>scanY\<close>). The value returned by \<open>findOffset\<close> is never larger than the
  offset of \<open>y\<close> either, and it is the selected \<open>bestOffset\<close> whenever the minimal
  score passes the threshold test.
\<close>

theorem findOffset_tie_break:
  "score prev cur w searchHeight signatureY scanY
     = jsAdd (dissimilarity prev cur w searchHeight signatureY scanY)
         (Some ((signatureY - scanY) * 5))
   \<and> (\<forall>y\<in>candidates (minScanYOf h cropTop cropBottom) (signatureYOf h cropTop cropBottom).
        \<forall>m. score prev cur w (searchHeightOf h cropTop cropBottom)
               (signatureYOf h cropTop cropBottom) y = Some m
          \<and> (\<forall>y'\<in>candidates (minScanYOf h cropTop cropBottom) (signatureYOf h cropTop cropBottom).
               \<forall>u. score prev cur w (searchHeightOf h cropTop cropBottom)
                      (signatureYOf h cropTop cropBottom) y' = Some u \<longrightarrow> m \<le> u)
          \<longrightarrow> score prev cur w (searchHeightOf h cropTop cropBottom)
                (signatureYOf h cropTop cropBottom)
                (signatureYOf h cropTop cropBottom - fst (scanResult prev cur w h cropTop cropBottom))
              = Some m
            \<and> fst (scanResult prev cur w h cropTop cropBottom)
                \<le> signatureYOf h cropTop cropBottom - y
            \<and> findOffset prev cur w h cropTop cropBottom \<le> signatureYOf h cropTop cropBottom - y
            \<and> (10 \<le> searchHeightOf h cropTop cropBottom \<and> m \<le> 8000 \<longrightarrow>
                 findOffset prev cur w h cropTop cropBottom
                 = fst (scanResult prev cur w h cropTop cropBottom)))"
proof -
  let ?sh = "searchHeightOf h cropTop cropBottom"
  let ?sy = "signatureYOf h cropTop cropBottom"
  let ?lo = "minScanYOf h cropTop cropBottom"
  let ?C = "candidates ?lo ?sy"
  let ?sc = "score prev cur w ?sh ?sy"
  let ?r = "scanResult prev cur w h cropTop cropBottom"
  let ?off = "findOffset prev cur w h cropTop cropBottom"
  have formula: "score prev cur w searchHeight signatureY scanY
     = jsAdd (dissimilarity prev cur w searchHeight signatureY scanY)
         (Some ((signatureY - scanY) * 5))"
    by (simp add: score_def penaltyPerCc_def)
  have main: "?sc (?sy - fst ?r) = Some m \<and> fst ?r \<le> ?sy - y \<and> ?off \<le> ?sy - y
              \<and> (10 \<le> ?sh \<and> m \<le> 8000 \<longrightarrow> ?off = fst ?r)"
    if y: "y \<in> ?C" and m: "?sc y = Some m"
      and least: "\<forall>y'\<in>?C. \<forall>u. ?sc y' = Some u \<longrightarrow> m \<le> u" for y m
  proof -
    have "jsLess (?sc y) Infinity" using m by simp
    with y scanResult_post [of prev cur w h cropTop cropBottom] obtain v where
      v: "snd ?r = Finite v" "?sy - fst ?r \<in> ?C" "?sc (?sy - fst ?r) = Some v"
         "\<forall>y\<in>?C. \<forall>u. ?sc y = Some u \<longrightarrow> v \<le> u"
         "\<forall>y\<in>?C. ?sc y = Some v \<longrightarrow> y \<le> ?sy - fst ?r"
      unfolding scanPost_def by auto
    have vm: "v = m"
      using v(2,3,4) y m least by (meson order_antisym)
    have best: "fst ?r \<le> ?sy - y"
      using v(5) y m vm by auto
    have "0 \<le> ?sy - y" using candidates_le [OF y] by simp
    then have a: "?off \<le> ?sy - y"
      using findOffset_cases [of prev cur w h cropTop cropBottom] best by auto
    have b: "?off = fst ?r" if "10 \<le> ?sh" "m \<le> 8000"
      using that v(1) vm by (cases ?r) (auto simp: findOffset_def)
    from v(3) vm best a b show ?thesis by blast
  qed
  from formula main show ?thesis by blast
qed

theorem findOffset_tie_break_witness:
  "38 \<in> candidates (minScanYOf 50 0 0) (signatureYOf 50 0 0)
   \<and> score (rampFrame 1 50 0) (rampFrame 1 50 2) 1 (searchHeightOf 50 0 0) (signatureYOf 50 0 0) 38
       = Some 10
   \<and> fst (scanResult (rampFrame 1 50 0) (rampFrame 1 50 2) 1 50 0 0) \<le> signatureYOf 50 0 0 - 38
   \<and> findOffset (rampFrame 1 50 0) (rampFrame 1 50 2) 1 50 0 0 \<le> signatureYOf 50 0 0 - 38
   \<and> findOffset (rampFrame 1 50 0) (rampFrame 1 50 2) 1 50 0 0
       = fst (scanResult (rampFrame 1 50 0) (rampFrame 1 50 2) 1 50 0 0)"
proof -
  let ?C = "candidates (minScanYOf 50 0 0) (signatureYOf 50 0 0)"
  let ?sc = "score (rampFrame 1 50 0) (rampFrame 1 50 2) 1 (searchHeightOf 50 0 0) (signatureYOf 50 0 0)"
  let ?r = "scanResult (rampFrame 1 50 0) (rampFrame 1 50 2) 1 50 0 0"
  let ?off = "findOffset (rampFrame 1 50 0) (rampFrame 1 50 2) 1 50 0 0"
  have sy: "signatureYOf 50 0 0 - 2 = 38"
    by (simp add: signatureYOf_def searchHeightOf_def)
  note f = scanResult_Finite [OF scanResult_ramp, unfolded sy]
  have sh: "10 \<le> searchHeightOf 50 0 0" "(10::int) \<le> 8000"
    by (simp_all add: searchHeightOf_def)
  have least: "\<forall>y'\<in>?C. \<forall>u. ?sc y' = Some u \<longrightarrow> 10 \<le> u"
    using f(3) .
  from findOffset_tie_break [of "rampFrame 1 50 0" "rampFrame 1 50 2" 1 10 40 38 50 0 0]
  have "\<forall>y\<in>?C. \<forall>m. ?sc y = Some m \<and> (\<forall>y'\<in>?C. \<forall>u. ?sc y' = Some u \<longrightarrow> m \<le> u)
          \<longrightarrow> ?sc (signatureYOf 50 0 0 - fst ?r) = Some m
            \<and> fst ?r \<le> signatureYOf 50 0 0 - y
            \<and> ?off \<le> signatureYOf 50 0 0 - y
            \<and> (10 \<le> searchHeightOf 50 0 0 \<and> m \<le> 8000 \<longrightarrow> ?off = fst ?r)"
    by (rule conjunct2)
  with f(1) f(2) least sh show ?thesis by blast
qed

text \<open>
  Claim C1, as amended. For \<open>searchHeight \<ge> 10\<close>, \<open>findOffset\<close> returns 0 exactly
  when every candidate's penalty-inclusive score \<open>diff + 5 * offset\<close> exceeds 8000 (the
  rejection test reads \<open>minDiff\<close>, which holds the penalised score), or the candidate
  of offset 0 itself has the minimal penalty-inclusive score.
\<close>

theorem findOffset_zero_iff:
  assumes "10 \<le> searchHeightOf h cropTop cropBottom"
  shows "findOffset prev cur w h cropTop cropBottom = 0 \<longleftrightarrow>
     (\<forall>y\<in>candidates (minScanYOf h cropTop cropBottom) (signatureYOf h cropTop cropBottom).
        \<forall>u. score prev cur w (searchHeightOf h cropTop cropBottom)
               (signatureYOf h cropTop cropBottom) y = Some u \<longrightarrow> 8000 < u)
     \<or> (\<exists>u. score prev cur w (searchHeightOf h cropTop cropBottom)
               (signatureYOf h cropTop cropBottom) (signatureYOf h cropTop cropBottom) = Some u
           \<and> (\<forall>y\<in>candidates (minScanYOf h cropTop cropBottom) (signatureYOf h cropTop cropBottom).
                \<forall>u'. score prev cur w (searchHeightOf h cropTop cropBottom)
                        (signatureYOf h cropTop cropBottom) y = Some u' \<longrightarrow> u \<le> u'))"
    (is "?off = 0 \<longleftrightarrow> ?reject \<or> ?zeroBest")
proof -
  let ?sh = "searchHeightOf h cropTop cropBottom"
  let ?sy = "signatureYOf h cropTop cropBottom"
  let ?C = "candidates (minScanYOf h cropTop cropBottom) ?sy"
  let ?sc = "score prev cur w ?sh ?sy"
  let ?r = "scanResult prev cur w h cropTop cropBottom"
  obtain b m where r: "?r = (b, m)" by (cases ?r)
  show ?thesis
  proof (cases m)
    case Infinity
    with r have "?off = 0" by (simp add: findOffset_def)
    moreover have ?reject
      using scanResult_Infinity(2) [of prev cur w h cropTop cropBottom] r Infinity by simp
    ultimately show ?thesis by blast
  next
    case (Finite v)
    note f = scanResult_Finite [OF r [unfolded Finite]]
    have b0: "0 \<le> b" using candidates_le [OF f(1)] by simp
    have off: "?off = (if 8000 < v then 0 else b)"
      using assms r Finite by (simp add: findOffset_def)
    show ?thesis
    proof (cases "8000 < v")
      case True
      then have ?reject using f(3) by fastforce
      then show ?thesis using off True by simp
    next
      case False
      have nrej: "\<not> ?reject" using f(1,2) False by fastforce
      have offb: "?off = b" using off False by simp
      have "b = 0 \<longleftrightarrow> ?zeroBest"
      proof
        assume "b = 0"
        then show ?zeroBest using f(2,3) by auto
      next
        assume ?zeroBest
        then obtain u where u: "?sc ?sy = Some u" "\<forall>y\<in>?C. \<forall>u'. ?sc y = Some u' \<longrightarrow> u \<le> u'"
          by blast
        have mem: "?sy \<in> ?C" using f(1) unfolding candidates_def by auto
        have "u = v" using u f(1,2,3) mem by (meson order_antisym)
        then have "?sy \<le> ?sy - b" using f(4) mem u(1) by blast
        then show "b = 0" using b0 by simp
      qed
      then show ?thesis unfolding offb using nrej by blast
    qed
  qed
qed

theorem findOffset_zero_iff_witness:
  "10 \<le> searchHeightOf 80 0 0
   \<and> findOffset (bandFrame 1 80 255 0 0) (bandFrame 1 40 35 40 0) 1 80 0 0 = 0
   \<and> findOffset (rampFrame 1 50 0) (rampFrame 1 50 2) 1 50 0 0 \<noteq> 0"
proof -
  have sh: "10 \<le> searchHeightOf 80 0 0" "10 \<le> searchHeightOf 50 0 0"
    by (simp_all add: searchHeightOf_def)
  have rej: "\<forall>y\<in>candidates (minScanYOf 80 0 0) (signatureYOf 80 0 0).
        \<forall>u. score (bandFrame 1 80 255 0 0) (bandFrame 1 40 35 40 0) 1 (searchHeightOf 80 0 0)
               (signatureYOf 80 0 0) y = Some u \<longrightarrow> 8000 < u"
    using scanResult_Finite(3) [OF scanResult_band] by fastforce
  have "findOffset (bandFrame 1 80 255 0 0) (bandFrame 1 40 35 40 0) 1 80 0 0 = 0"
    using findOffset_zero_iff [OF sh(1), of "bandFrame 1 80 255 0 0" "bandFrame 1 40 35 40 0" 1] rej
    by blast
  moreover have "findOffset (rampFrame 1 50 0) (rampFrame 1 50 2) 1 50 0 0 \<noteq> 0"
    unfolding findOffset_ramp by simp
  ultimately show ?thesis using sh by blast
qed

text \<open>
  The claim as stated fails. For an 80-row frame pair the candidate at \<open>scanY = 24\<close>
  (offset 40) has the raw dissimilarity 7920, which does not exceed 8000, and yet
  \<open>findOffset\<close> returns 0: its penalised score is 8120.
\<close>

theorem findOffset_raw_counterexample:
  "10 \<le> searchHeightOf 80 0 0
   \<and> findOffset (bandFrame 1 80 255 0 0) (bandFrame 1 40 35 40 0) 1 80 0 0 = 0
   \<and> 24 \<in> candidates (minScanYOf 80 0 0) (signatureYOf 80 0 0)
   \<and> dissimilarity (bandFrame 1 80 255 0 0) (bandFrame 1 40 35 40 0) 1
        (searchHeightOf 80 0 0) (signatureYOf 80 0 0) 24 = Some 7920
   \<and> \<not> (8000 :: int) < 7920"
proof -
  have geo: "searchHeightOf 80 0 0 = 16" "signatureYOf 80 0 0 = 64" "minScanYOf 80 0 0 = 24"
    by (simp_all add: searchHeightOf_def signatureYOf_def minScanYOf_def maxScrollOf_def)
  have off: "findOffset (bandFrame 1 80 255 0 0) (bandFrame 1 40 35 40 0) 1 80 0 0 = 0"
    using scanResult_band by (simp add: findOffset_def geo)
  have mem: "(24::int) \<in> candidates 24 64"
    by (simp add: candidates_def)
  show ?thesis
    unfolding geo using off mem dissimilarity_band by simp
qed

text \<open>
  Claim C4, as amended. When the signature window of the previous frame has one colour
  \<open>p\<close> and the scanned region of the current frame has one colour \<open>q\<close>,
  \<open>findOffset\<close> returns 0: every candidate has the same dissimilarity
  \<open>3 * colourDistance p q * rowCount searchHeight 0\<close>, so the candidate of offset 0 has
  the least penalised score. (Whether that score exceeds 8000 does not matter.)
\<close>

theorem findOffset_uniform:
  assumes "1 \<le> w"
    and "uniformRegion prev w (signatureYOf h cropTop cropBottom)
           (signatureYOf h cropTop cropBottom + searchHeightOf h cropTop cropBottom) p"
    and "uniformRegion cur w (minScanYOf h cropTop cropBottom)
           (signatureYOf h cropTop cropBottom + searchHeightOf h cropTop cropBottom) q"
  shows "findOffset prev cur w h cropTop cropBottom = 0
     \<and> (\<forall>y\<in>candidates (minScanYOf h cropTop cropBottom) (signatureYOf h cropTop cropBottom).
          score prev cur w (searchHeightOf h cropTop cropBottom) (signatureYOf h cropTop cropBottom) y
          = Some (3 * colourDistance p q * rowCount (searchHeightOf h cropTop cropBottom) 0
                  + (signatureYOf h cropTop cropBottom - y) * 5))"
proof -
  let ?sh = "searchHeightOf h cropTop cropBottom"
  let ?sy = "signatureYOf h cropTop cropBottom"
  let ?lo = "minScanYOf h cropTop cropBottom"
  let ?C = "candidates ?lo ?sy"
  let ?sc = "score prev cur w ?sh ?sy"
  let ?r = "scanResult prev cur w h cropTop cropBottom"
  let ?D = "3 * colourDistance p q * rowCount ?sh 0"
  have sc: "?sc y = Some (?D + (?sy - y) * 5)" if y: "y \<in> ?C" for y
  proof -
    have "pixelDiff prev cur w ?sy y x k = Some (colourDistance p q)"
      if x: "x \<in> set (colsToScan w)" and k: "k \<in> sampledRows ?sh 0" for x k
    proof -
      have xr: "x \<in> {0..<w}" using cols_in_range [OF assms(1) x] .
      have kr: "0 \<le> k" "k < ?sh" using sampledRows_range [OF k] by auto
      have yr: "?lo \<le> y" "y \<le> ?sy" using y unfolding candidates_def by auto
      have "?sy + k \<in> {?sy..<?sy + ?sh}" using kr by simp
      then have a: "pixelAt prev w x (?sy + k) = Some p"
        using assms(2) xr unfolding uniformRegion_def by blast
      have "y + k \<in> {?lo..<?sy + ?sh}" using kr yr by simp
      then have b: "pixelAt cur w x (y + k) = Some q"
        using assms(3) xr unfolding uniformRegion_def by blast
      from pixelDiff_pixelAt [OF a b] show ?thesis .
    qed
    then have "dissimilarity prev cur w ?sh ?sy y = Some ?D"
      by (intro dissimilarity_const) blast
    then show ?thesis by (simp add: score_Some)
  qed
  have "fst ?r = 0"
  proof (cases "snd ?r")
    case Infinity
    then show ?thesis by (rule scanResult_Infinity(1))
  next
    case (Finite v)
    then have r: "?r = (fst ?r, Finite v)" by (cases ?r) simp
    note f = scanResult_Finite [OF r]
    have mem: "?sy \<in> ?C" using f(1) unfolding candidates_def by auto
    have "v = ?D + (?sy - (?sy - fst ?r)) * 5" using sc [OF f(1)] f(2) by simp
    moreover have "v \<le> ?D + (?sy - ?sy) * 5" using f(3) mem sc [OF mem] by blast
    moreover have "0 \<le> fst ?r" using candidates_le [OF f(1)] by simp
    ultimately show ?thesis by simp
  qed
  then have "findOffset prev cur w h cropTop cropBottom = 0"
    by (cases ?r) (auto simp: findOffset_def)
  with sc show ?thesis by blast
qed

theorem findOffset_uniform_witness:
  "findOffset (bandFrame 1 50 7 0 0) (bandFrame 1 50 9 0 0) 1 50 0 0 = 0
   \<and> score (bandFrame 1 50 7 0 0) (bandFrame 1 50 9 0 0) 1 (searchHeightOf 50 0 0)
        (signatureYOf 50 0 0) 38 = Some 46"
proof -
  have geo: "searchHeightOf 50 0 0 = 10" "signatureYOf 50 0 0 = 40" "minScanYOf 50 0 0 = 15"
    by (simp_all add: searchHeightOf_def signatureYOf_def minScanYOf_def maxScrollOf_def)
  have u1: "uniformRegion (bandFrame 1 50 7 0 0) (int 1) 40 50 (uint (7 :: 8 word), uint (7 :: 8 word), uint (7 :: 8 word))"
    by (rule uniformRegion_bandFrame) simp_all
  have u2: "uniformRegion (bandFrame 1 50 9 0 0) (int 1) 15 50 (uint (9 :: 8 word), uint (9 :: 8 word), uint (9 :: 8 word))"
    by (rule uniformRegion_bandFrame) simp_all
  have mem: "(38::int) \<in> candidates 15 40" by (simp add: candidates_def)
  have w1: "(1::int) \<le> 1" by simp
  have n: "rowCount 10 0 = 2" by (simp add: rowCount_def)
  have cd: "colourDistance (7, 7, 7) (9, 9, 9) = 6" by (simp add: colourDistance_def)
  from findOffset_uniform [of 1 "bandFrame 1 50 7 0 0" 50 0 0 "(7, 7, 7)" "bandFrame 1 50 9 0 0" "(9, 9, 9)"]
    u1 u2 mem w1
  show ?thesis
    unfolding geo n cd by simp
qed

text \<open>
  The reason given in the claim fails. For two frames of the same single colour the
  minimal score is 0, which does not exceed the threshold 8000.
\<close>

theorem findOffset_uniform_counterexample:
  "uniformRegion (bandFrame 1 50 7 0 0) 1 (signatureYOf 50 0 0)
     (signatureYOf 50 0 0 + searchHeightOf 50 0 0) (7, 7, 7)
   \<and> uniformRegion (bandFrame 1 50 7 0 0) 1 (minScanYOf 50 0 0)
     (signatureYOf 50 0 0 + searchHeightOf 50 0 0) (7, 7, 7)
   \<and> 10 \<le> searchHeightOf 50 0 0
   \<and> scanResult (bandFrame 1 50 7 0 0) (bandFrame 1 50 7 0 0) 1 50 0 0 = (0, Finite 0)
   \<and> \<not> exceeds (Finite 0) 8000"
proof -
  have geo: "searchHeightOf 50 0 0 = 10" "signatureYOf 50 0 0 = 40" "minScanYOf 50 0 0 = 15"
    by (simp_all add: searchHeightOf_def signatureYOf_def minScanYOf_def maxScrollOf_def)
  have u1: "uniformRegion (bandFrame 1 50 7 0 0) (int 1) 40 50 (uint (7 :: 8 word), uint (7 :: 8 word), uint (7 :: 8 word))"
    by (rule uniformRegion_bandFrame) simp_all
  have u2: "uniformRegion (bandFrame 1 50 7 0 0) (int 1) 15 50 (uint (7 :: 8 word), uint (7 :: 8 word), uint (7 :: 8 word))"
    by (rule uniformRegion_bandFrame) simp_all
  show ?thesis
    unfolding geo using u1 u2 scanResult_flat by simp
qed

section \<open>Results of \<open>detectStaticRegions\<close>\<close>













subsection \<open>Evaluation on the example videos\<close>

lemma stillVideo_sel [simp]:
  "videoWidth (stillVideo w h d f) = w" "videoHeight (stillVideo w h d f) = h"
  "duration (stillVideo w h d f) = d" "frameAt (stillVideo w h d f) t = f"
  by (simp_all add: stillVideo_def)












subsection \<open>Claims about \<open>detectStaticRegions\<close>\<close>




section \<open>Results on double rounding\<close>

lemma roundEven_cases: "roundEven r = \<lfloor>r\<rfloor> \<or> roundEven r = \<lfloor>r\<rfloor> + 1"
  by (simp add: roundEven_def Let_def)

lemma roundEven_of_int [simp]: "roundEven (of_int n) = n"
  by (simp add: roundEven_def Let_def)

lemma roundEven_eqI:
  assumes "\<bar>r - of_int n\<bar> \<le> 1 / 2" "\<bar>r - of_int n\<bar> = 1 / 2 \<Longrightarrow> even n"
  shows "roundEven r = n"
proof (cases "of_int n \<le> r")
  case True
  then have f: "\<lfloor>r\<rfloor> = n" using assms(1) by (intro floor_unique) auto
  show ?thesis
  proof (cases "r - of_int n = 1 / 2")
    case True
    then have "even n" using assms(2) by simp
    then show ?thesis using f True by (simp add: roundEven_def Let_def)
  next
    case False
    then have "r - of_int n < 1 / 2" using assms(1) True by auto
    then show ?thesis using f by (simp add: roundEven_def Let_def)
  qed
next
  case False
  then have f: "\<lfloor>r\<rfloor> = n - 1" using assms(1) by (intro floor_unique) auto
  show ?thesis
  proof (cases "of_int n - r = 1 / 2")
    case True
    then have "even n" using assms(2) False by simp
    then have "odd (n - 1)" by simp
    moreover have "r - of_int (n - 1) = 1 / 2" using True by simp
    ultimately show ?thesis using f by (simp add: roundEven_def Let_def)
  next
    case neq: False
    then have "1 / 2 < r - of_int (n - 1)" using assms(1) False by auto
    then show ?thesis using f by (simp add: roundEven_def Let_def)
  qed
qed

lemma roundEven_mono: "r \<le> s \<Longrightarrow> roundEven r \<le> roundEven s"
proof -
  assume rs: "r \<le> s"
  then have fl: "\<lfloor>r\<rfloor> \<le> \<lfloor>s\<rfloor>" by (rule floor_mono)
  show ?thesis
  proof (cases "\<lfloor>r\<rfloor> = \<lfloor>s\<rfloor>")
    case True
    have "r - of_int \<lfloor>s\<rfloor> \<le> s - of_int \<lfloor>s\<rfloor>" using rs by simp
    then show ?thesis
      unfolding roundEven_def Let_def True by auto
  next
    case False
    then have "\<lfloor>r\<rfloor> + 1 \<le> \<lfloor>s\<rfloor>" using fl by simp
    moreover have "roundEven r \<le> \<lfloor>r\<rfloor> + 1" using roundEven_cases [of r] by auto
    moreover have "\<lfloor>s\<rfloor> \<le> roundEven s" using roundEven_cases [of s] by auto
    ultimately show ?thesis by linarith
  qed
qed

lemma roundEven_ge: "of_int n \<le> r \<Longrightarrow> n \<le> roundEven r"
  using roundEven_mono [of "of_int n" r] by simp

lemma roundEven_le: "r \<le> of_int n \<Longrightarrow> roundEven r \<le> n"
  using roundEven_mono [of r "of_int n"] by simp

lemma roundEven_near: "\<bar>of_int (roundEven r) - r\<bar> \<le> 1 / 2"
proof -
  define n where "n = \<lfloor>r\<rfloor>"
  define f where "f = r - of_int n"
  have f: "0 \<le> f" "f < 1" unfolding f_def n_def by linarith+
  have r: "r = of_int n + f" unfolding f_def by simp
  have "roundEven r = (if f < 1 / 2 then n else if 1 / 2 < f then n + 1
                        else if even n then n else n + 1)"
    unfolding roundEven_def Let_def f_def n_def ..
  then show ?thesis unfolding r using f by (auto simp: abs_if)
qed


lemma finite_exponents [simp]: "finite {e :: int. - 1022 \<le> e \<and> e \<le> 1023 \<and> P e}"
  by (rule finite_subset [of _ "{- 1022..1023}"]) auto

lemma exponentOf_range: "- 1022 \<le> exponentOf x" "exponentOf x \<le> 1023"
proof -
  let ?S = "insert (- 1022) {e \<in> {- 1022..1023}. 2 powi e \<le> \<bar>x\<bar>}"
  have fin: "finite ?S" by simp
  have "exponentOf x \<in> ?S" unfolding exponentOf_def by (rule Max_in [OF fin]) simp
  then show "- 1022 \<le> exponentOf x" "exponentOf x \<le> 1023" by auto
qed

lemma exponentOf_lower: "- 1022 < exponentOf x \<Longrightarrow> 2 powi exponentOf x \<le> \<bar>x\<bar>"
proof -
  let ?S = "insert (- 1022) {e \<in> {- 1022..1023}. 2 powi e \<le> \<bar>x\<bar>}"
  assume a: "- 1022 < exponentOf x"
  have fin: "finite ?S" by simp
  have "exponentOf x \<in> ?S" unfolding exponentOf_def by (rule Max_in [OF fin]) simp
  then show ?thesis using a by auto
qed

lemma exponentOf_upper: "exponentOf x < 1023 \<Longrightarrow> \<bar>x\<bar> < 2 powi (exponentOf x + 1)"
proof (rule ccontr)
  let ?S = "insert (- 1022) {e \<in> {- 1022..1023}. 2 powi e \<le> \<bar>x\<bar>}"
  assume a: "exponentOf x < 1023" and n: "\<not> \<bar>x\<bar> < 2 powi (exponentOf x + 1)"
  have fin: "finite ?S" by simp
  have "exponentOf x + 1 \<in> ?S" using a n exponentOf_range(1) [of x] by auto
  then have "exponentOf x + 1 \<le> Max ?S" by (rule Max_ge [OF fin])
  then show False unfolding exponentOf_def [symmetric] by simp
qed

lemma exponentOf_mono: "\<bar>x\<bar> \<le> \<bar>y\<bar> \<Longrightarrow> exponentOf x \<le> exponentOf y"
  unfolding exponentOf_def by (rule Max_mono) auto

lemma exponentOf_eqI:
  assumes "- 1022 \<le> e" "e \<le> 1023" "e = - 1022 \<or> 2 powi e \<le> \<bar>x\<bar>" "\<bar>x\<bar> < 2 powi (e + 1)"
  shows "exponentOf x = e"
  unfolding exponentOf_def
proof (rule Max_eqI)
  show "finite (insert (- 1022) {e \<in> {- 1022..1023}. 2 powi e \<le> \<bar>x\<bar>})" by simp
  show "e \<in> insert (- 1022) {e \<in> {- 1022..1023}. 2 powi e \<le> \<bar>x\<bar>}"
    using assms by auto
  fix y assume y: "y \<in> insert (- 1022) {e \<in> {- 1022..1023}. 2 powi e \<le> \<bar>x\<bar>}"
  show "y \<le> e"
  proof (cases "y = - 1022")
    case True
    then show ?thesis using assms(1) by simp
  next
    case False
    then have "(2::real) powi y \<le> \<bar>x\<bar>" using y by auto
    then have "(2::real) powi y < 2 powi (e + 1)" using assms(4) by simp
    then have "y < e + 1"
      by (metis not_less power_int_increasing one_le_numeral)
    then show ?thesis by simp
  qed
qed


lemma exponentOf_ge: "- 1022 \<le> e \<Longrightarrow> e \<le> 1023 \<Longrightarrow> 2 powi e \<le> \<bar>x\<bar> \<Longrightarrow> e \<le> exponentOf x"
  unfolding exponentOf_def by (rule Max_ge) auto


lemma ulpOf_pos: "0 < ulpOf x"
  by (simp add: ulpOf_def)

lemma roundDouble_ulp: "roundDouble x = of_int (roundEven (x / ulpOf x)) * ulpOf x"
  by (simp add: roundDouble_def)

lemma scale_53: "of_int (2 ^ 53) * (2::real) powi (e - 52) = 2 powi (e + 1)"
proof -
  have "(2::real) powi (e + 1) = 2 powi (53 + (e - 52))"
    by (rule arg_cong [where f = "\<lambda>k. 2 powi k"]) simp
  also have "\<dots> = 2 powi 53 * 2 powi (e - 52)" by (rule power_int_add) simp
  finally show ?thesis by simp
qed

lemma scale_52: "of_int (2 ^ 52) * (2::real) powi (e - 52) = 2 powi e"
proof -
  have "(2::real) powi e = 2 powi (52 + (e - 52))"
    by (rule arg_cong [where f = "\<lambda>k. 2 powi k"]) simp
  also have "\<dots> = 2 powi 52 * 2 powi (e - 52)" by (rule power_int_add) simp
  finally show ?thesis by simp
qed

lemma roundDouble_nonneg: "0 \<le> x \<Longrightarrow> 0 \<le> roundDouble x"
proof -
  assume "0 \<le> x"
  then have "of_int 0 \<le> x / ulpOf x" using ulpOf_pos [of x] by simp
  then have "0 \<le> roundEven (x / ulpOf x)" by (rule roundEven_ge)
  then show ?thesis unfolding roundDouble_ulp using ulpOf_pos [of x] by simp
qed

lemma roundDouble_le_pow:
  assumes "\<bar>x\<bar> < 2 powi (exponentOf x + 1)"
  shows "roundDouble x \<le> 2 powi (exponentOf x + 1)"
proof -
  have "x \<le> 2 powi (exponentOf x + 1)" using assms by simp
  also have "\<dots> = of_int (2 ^ 53) * ulpOf x" unfolding ulpOf_def by (rule scale_53 [symmetric])
  finally have "x / ulpOf x \<le> of_int (2 ^ 53)"
    using ulpOf_pos [of x] by (simp add: pos_divide_le_eq)
  then have "roundEven (x / ulpOf x) \<le> 2 ^ 53" by (rule roundEven_le)
  then have "of_int (roundEven (x / ulpOf x)) * ulpOf x \<le> of_int (2 ^ 53) * ulpOf x"
    using ulpOf_pos [of x] by (intro mult_right_mono) (simp_all add: of_int_le_iff [symmetric] del: of_int_le_iff)
  then show ?thesis unfolding roundDouble_ulp ulpOf_def scale_53 .
qed

lemma roundDouble_ge_pow:
  assumes "2 powi exponentOf x \<le> x"
  shows "2 powi exponentOf x \<le> roundDouble x"
proof -
  have "of_int (2 ^ 52) * ulpOf x = 2 powi exponentOf x" unfolding ulpOf_def by (rule scale_52)
  then have "of_int (2 ^ 52) \<le> x / ulpOf x"
    using assms ulpOf_pos [of x] by (simp add: pos_le_divide_eq)
  then have "2 ^ 52 \<le> roundEven (x / ulpOf x)" by (rule roundEven_ge)
  then have "of_int (2 ^ 52) * ulpOf x \<le> of_int (roundEven (x / ulpOf x)) * ulpOf x"
    using ulpOf_pos [of x] by (intro mult_right_mono) (simp_all add: of_int_le_iff [symmetric] del: of_int_le_iff)
  then show ?thesis unfolding roundDouble_ulp ulpOf_def scale_52 .
qed

lemma roundDouble_mono:
  assumes "0 \<le> x" "x \<le> y"
  shows "roundDouble x \<le> roundDouble y"
proof -
  have e: "exponentOf x \<le> exponentOf y" using assms by (intro exponentOf_mono) simp
  show ?thesis
  proof (cases "exponentOf x = exponentOf y")
    case True
    then have u: "ulpOf x = ulpOf y" by (simp add: ulpOf_def)
    have "x / ulpOf y \<le> y / ulpOf y"
      using assms(2) ulpOf_pos [of y] by (simp add: divide_right_mono)
    then have "roundEven (x / ulpOf y) \<le> roundEven (y / ulpOf y)" by (rule roundEven_mono)
    then have "real_of_int (roundEven (x / ulpOf y)) \<le> real_of_int (roundEven (y / ulpOf y))"
      by simp
    then show ?thesis
      unfolding roundDouble_ulp u using ulpOf_pos [of y] by (intro mult_right_mono) simp_all
  next
    case False
    then have lt: "exponentOf x < exponentOf y" using e by simp
    have "exponentOf x < 1023" using lt exponentOf_range(2) [of y] by simp
    then have "\<bar>x\<bar> < 2 powi (exponentOf x + 1)" by (rule exponentOf_upper)
    then have a: "roundDouble x \<le> 2 powi (exponentOf x + 1)" by (rule roundDouble_le_pow)
    have "- 1022 < exponentOf y" using lt exponentOf_range(1) [of x] by simp
    then have "2 powi exponentOf y \<le> \<bar>y\<bar>" by (rule exponentOf_lower)
    then have "2 powi exponentOf y \<le> y" using assms by simp
    then have b: "2 powi exponentOf y \<le> roundDouble y" by (rule roundDouble_ge_pow)
    have "(2::real) powi (exponentOf x + 1) \<le> 2 powi exponentOf y"
      using lt by (intro power_int_increasing) simp_all
    with a b show ?thesis by linarith
  qed
qed

lemma roundDouble_eqI:
  assumes "- 1022 \<le> e" "e \<le> 1023" "e = - 1022 \<or> 2 powi e \<le> \<bar>x\<bar>" "\<bar>x\<bar> < 2 powi (e + 1)"
    and "\<bar>x / 2 powi (e - 52) - of_int n\<bar> \<le> 1 / 2"
    and "\<bar>x / 2 powi (e - 52) - of_int n\<bar> = 1 / 2 \<Longrightarrow> even n"
  shows "roundDouble x = of_int n * 2 powi (e - 52)"
proof -
  have "exponentOf x = e" using assms(1-4) by (rule exponentOf_eqI)
  moreover have "roundEven (x / 2 powi (e - 52)) = n" using assms(5,6) by (rule roundEven_eqI)
  ultimately show ?thesis by (simp add: roundDouble_def ulpOf_def)
qed

lemma roundDouble_idem:
  assumes "0 \<le> x"
  shows "roundDouble (roundDouble x) = roundDouble x"
proof -
  define e where "e = exponentOf x"
  define u where "u = (2::real) powi (e - 52)"
  define n where "n = roundEven (x / u)"
  define y where "y = of_int n * u"
  have u: "0 < u" by (simp add: u_def)
  have y: "roundDouble x = y"
    by (simp add: roundDouble_def ulpOf_def y_def n_def u_def e_def)
  have y0: "0 \<le> y" using roundDouble_nonneg [OF assms] y by simp
  have er: "- 1022 \<le> e" "e \<le> 1023" unfolding e_def by (rule exponentOf_range)+
  have low: "e = - 1022 \<or> 2 powi e \<le> \<bar>y\<bar>"
  proof (cases "e = - 1022")
    case False
    then have "- 1022 < exponentOf x" using er by (simp add: e_def)
    then have "2 powi exponentOf x \<le> \<bar>x\<bar>" by (rule exponentOf_lower)
    then have "2 powi exponentOf x \<le> x" using assms by simp
    then have "2 powi exponentOf x \<le> roundDouble x" by (rule roundDouble_ge_pow)
    then show ?thesis using y y0 by (simp add: e_def)
  qed simp
  have fixed: "roundDouble y = y" if "exponentOf y = e"
  proof -
    have q: "y / u = of_int n" using u by (simp add: y_def)
    have "roundDouble y = of_int (roundEven (y / u)) * u"
      by (simp add: roundDouble_def ulpOf_def that u_def)
    also have "\<dots> = of_int n * u" unfolding q roundEven_of_int ..
    finally show ?thesis unfolding y_def .
  qed
  have "roundDouble y = y"
  proof (cases "e < 1023")
    case False
    then have e: "e = 1023" using er by simp
    then have "2 powi e \<le> \<bar>y\<bar>" using low by simp
    then have "e \<le> exponentOf y" using er by (intro exponentOf_ge)
    then have "exponentOf y = e" using exponentOf_range(2) [of y] e by simp
    then show ?thesis by (rule fixed)
  next
    case True
    then have "\<bar>x\<bar> < 2 powi (exponentOf x + 1)" unfolding e_def by (rule exponentOf_upper)
    then have yle: "y \<le> 2 powi (e + 1)"
      using roundDouble_le_pow [of x] y by (simp add: e_def)
    show ?thesis
    proof (cases "y < 2 powi (e + 1)")
      case True
      then have "exponentOf y = e" using er low y0 by (intro exponentOf_eqI) simp_all
      then show ?thesis by (rule fixed)
    next
      case False
      then have yeq: "y = 2 powi (e + 1)" using yle by simp
      have "(2::real) powi (e + 1) < 2 powi (e + 1 + 1)"
        by (intro power_int_strict_increasing) simp_all
      then have ey: "exponentOf y = e + 1"
        using er \<open>e < 1023\<close> unfolding yeq by (intro exponentOf_eqI) simp_all
      have "(2::real) powi (e + 1) / 2 powi (e + 1 - 52) = 2 powi (e + 1 - (e + 1 - 52))"
        by (rule power_int_diff [symmetric]) simp
      also have "\<dots> = of_int (2 ^ 52)" by simp
      finally have q: "y / 2 powi (e + 1 - 52) = of_int (2 ^ 52)" unfolding yeq .
      have "roundDouble y = of_int (2 ^ 52) * 2 powi (e + 1 - 52)"
        unfolding roundDouble_def ulpOf_def ey q roundEven_of_int ..
      also have "\<dots> = 2 powi (e + 1)" by (rule scale_52)
      finally show ?thesis using yeq by simp
    qed
  qed
  then show ?thesis unfolding y .
qed

lemma roundDouble_error:
  "\<bar>roundDouble x - x\<bar> \<le> ulpOf x / 2"
proof -
  have "\<bar>of_int (roundEven (x / ulpOf x)) - x / ulpOf x\<bar> \<le> 1 / 2" by (rule roundEven_near)
  then have "\<bar>of_int (roundEven (x / ulpOf x)) - x / ulpOf x\<bar> * ulpOf x \<le> 1 / 2 * ulpOf x"
    using ulpOf_pos [of x] by (intro mult_right_mono) simp_all
  moreover have "\<bar>of_int (roundEven (x / ulpOf x)) - x / ulpOf x\<bar> * ulpOf x
                 = \<bar>roundDouble x - x\<bar>"
    using ulpOf_pos [of x] by (simp add: roundDouble_ulp abs_mult [symmetric] left_diff_distrib abs_mult_pos)
  ultimately show ?thesis by simp
qed

lemma exponentOf_less:
  assumes "\<bar>x\<bar> < 2 powi k" "- 1022 < k"
  shows "exponentOf x < k"
proof (rule ccontr)
  assume "\<not> exponentOf x < k"
  then have k: "k \<le> exponentOf x" by simp
  then have "- 1022 < exponentOf x" using assms(2) by simp
  then have "2 powi exponentOf x \<le> \<bar>x\<bar>" by (rule exponentOf_lower)
  moreover have "(2::real) powi k \<le> 2 powi exponentOf x"
    using k by (intro power_int_increasing) simp_all
  ultimately show False using assms(1) by linarith
qed

lemma roundDouble_0: "roundDouble 0 = 0"
  using roundEven_of_int [of 0] by (simp add: roundDouble_def)

lemma roundDouble_1: "roundDouble 1 = 1"
proof -
  have "roundDouble 1 = of_int 4503599627370496 * 2 powi (0 - 52)"
    by (rule roundDouble_eqI) simp_all
  then show ?thesis by simp
qed

lemma roundDouble_100: "roundDouble 100 = 100"
proof -
  have "roundDouble 100 = of_int 7036874417766400 * 2 powi (6 - 52)"
    by (rule roundDouble_eqI) simp_all
  then show ?thesis by simp
qed

lemma step_value: "step = 3602879701896397 / 36028797018963968"
proof -
  have "roundDouble (1 / 10) = of_int 7205759403792794 * 2 powi (- 4 - 52)"
    by (rule roundDouble_eqI) simp_all
  then show ?thesis by (simp add: step_def)
qed

lemma step_pos: "0 < step"
  by (simp add: step_value)

lemma step_double: "roundDouble step = step"
  unfolding step_def by (rule roundDouble_idem) simp

lemma progress_bounds:
  assumes "0 < d" "0 \<le> t" "t < d"
  shows "0 \<le> dblMul (dblDiv t d) 100" and "dblMul (dblDiv t d) 100 \<le> 100"
proof -
  have q0: "0 \<le> t / d" using assms by simp
  then have r0: "0 \<le> dblDiv t d" unfolding dblDiv_def by (rule roundDouble_nonneg)
  have "t / d \<le> 1" using assms by simp
  then have "roundDouble (t / d) \<le> roundDouble 1" using q0 by (intro roundDouble_mono)
  then have r1: "dblDiv t d \<le> 1" by (simp add: dblDiv_def roundDouble_1)
  have m0: "0 \<le> dblDiv t d * 100" using r0 by simp
  then show "0 \<le> dblMul (dblDiv t d) 100" unfolding dblMul_def by (rule roundDouble_nonneg)
  have "dblDiv t d * 100 \<le> 100" using r1 by simp
  then have "roundDouble (dblDiv t d * 100) \<le> roundDouble 100" using m0 by (intro roundDouble_mono)
  then show "dblMul (dblDiv t d) 100 \<le> 100" by (simp add: dblMul_def roundDouble_100)
qed

lemma progress_mono:
  assumes "0 < d" "0 \<le> t" "t \<le> t'"
  shows "dblMul (dblDiv t d) 100 \<le> dblMul (dblDiv t' d) 100"
proof -
  have q0: "0 \<le> t / d" using assms by simp
  have "t / d \<le> t' / d" using assms by (simp add: divide_right_mono)
  then have r: "dblDiv t d \<le> dblDiv t' d" unfolding dblDiv_def using q0 by (intro roundDouble_mono)
  have r0: "0 \<le> dblDiv t d" unfolding dblDiv_def using q0 by (rule roundDouble_nonneg)
  then have m0: "0 \<le> dblDiv t d * 100" by simp
  have "dblDiv t d * 100 \<le> dblDiv t' d * 100" using r by simp
  then show ?thesis unfolding dblMul_def using m0 by (intro roundDouble_mono)
qed

lemma dblAdd_step:
  assumes "0 \<le> t" "roundDouble t = t"
  shows "t \<le> dblAdd t step" and "roundDouble (dblAdd t step) = dblAdd t step"
proof -
  have "roundDouble t \<le> roundDouble (t + step)"
    using assms(1) step_pos by (intro roundDouble_mono) simp_all
  then show "t \<le> dblAdd t step" by (simp add: dblAdd_def assms(2))
  show "roundDouble (dblAdd t step) = dblAdd t step"
    unfolding dblAdd_def using assms(1) step_pos by (intro roundDouble_idem) simp
qed

lemma dblAdd_step_grows:
  assumes "0 \<le> t" "t < 2 ^ 49"
  shows "t + 1 / 32 \<le> dblAdd t step"
proof -
  let ?x = "t + step"
  have s: "3 / 32 < step" "step < 1" by (simp_all add: step_value)
  have "\<bar>?x\<bar> < 2 ^ 50" using assms s by simp
  then have "\<bar>?x\<bar> < 2 powi 50" by simp
  then have "exponentOf ?x < 50" by (rule exponentOf_less) simp
  then have "exponentOf ?x - 52 \<le> - 3" by simp
  then have "(2::real) powi (exponentOf ?x - 52) \<le> 2 powi (- 3)"
    by (intro power_int_increasing) simp_all
  then have u: "ulpOf ?x \<le> 1 / 8" by (simp add: ulpOf_def)
  have "\<bar>roundDouble ?x - ?x\<bar> \<le> ulpOf ?x / 2" by (rule roundDouble_error)
  then have "?x - 1 / 16 \<le> roundDouble ?x" using u by linarith
  then show ?thesis using s(1) by (simp add: dblAdd_def)
qed

section \<open>Results of the compositor and the pipeline\<close>

subsection \<open>Canvas operations\<close>

lemma drawImage_sel [simp]:
  "width (drawImage src sy sh dy c) = width c"
  "height (drawImage src sy sh dy c) = height c"
  "length (bitmap (drawImage src sy sh dy c)) = length (bitmap c)"
  by (simp_all add: drawImage_def)

lemma drawImage_nth:
  "y < length (bitmap c) \<Longrightarrow>
   bitmap (drawImage src sy sh dy c) ! y =
     (if dy \<le> int y \<and> int y < dy + sh \<and> 0 \<le> sy + (int y - dy) \<and> sy + (int y - dy) < int (length src)
      then src ! nat (sy + (int y - dy)) else bitmap c ! y)"
  by (simp add: drawImage_def Let_def)

lemma setHeight_sel [simp]:
  "0 \<le> n \<Longrightarrow> height (setHeight n c) = n"
  "width (setHeight n c) = width c"
  "0 \<le> n \<Longrightarrow> bitmap (setHeight n c) = replicate (nat n) (blankRow (width c))"
  by (simp_all add: setHeight_def Let_def)

lemma drawCanvas_sel [simp]:
  "width (drawCanvas src c) = width c"
  "height (drawCanvas src c) = height c"
  "length (bitmap (drawCanvas src c)) = length (bitmap c)"
  by (simp_all add: drawCanvas_def)

lemma drawCanvas_nth:
  "y < length (bitmap c) \<Longrightarrow>
   bitmap (drawCanvas src c) ! y = (if y < length (bitmap src) then bitmap src ! y else bitmap c ! y)"
  by (simp add: drawCanvas_def drawImage_nth)

lemma tempCanvas_bitmap:
  assumes "wellFormed master"
  shows "bitmap (drawCanvas master (setHeight (height master) c)) = bitmap master"
proof (rule nth_equalityI)
  show "length (bitmap (drawCanvas master (setHeight (height master) c))) = length (bitmap master)"
    using assms by (simp add: wellFormed_def)
next
  fix y assume "y < length (bitmap (drawCanvas master (setHeight (height master) c)))"
  then have y: "y < length (bitmap master)" "y < length (bitmap (setHeight (height master) c))"
    using assms by (simp_all add: wellFormed_def)
  show "bitmap (drawCanvas master (setHeight (height master) c)) ! y = bitmap master ! y"
    using y(1) by (simp add: drawCanvas_nth [OF y(2)])
qed

lemma appendStrip_sel:
  assumes "wellFormed master" "0 < offset"
  shows "height (appendStrip w h cropBottom frameData offset master) = height master + offset"
    and "width (appendStrip w h cropBottom frameData offset master) = width master"
    and "length (bitmap (appendStrip w h cropBottom frameData offset master))
           = length (bitmap master) + nat offset"
    and "wellFormed (appendStrip w h cropBottom frameData offset master)"
proof -
  have n: "0 \<le> height master + offset" "0 \<le> height master"
    "length (bitmap master) = nat (height master)"
    using assms by (simp_all add: wellFormed_def)
  show 1: "height (appendStrip w h cropBottom frameData offset master) = height master + offset"
    using n by (simp add: appendStrip_def Let_def)
  show "width (appendStrip w h cropBottom frameData offset master) = width master"
    by (simp add: appendStrip_def Let_def)
  show 3: "length (bitmap (appendStrip w h cropBottom frameData offset master))
           = length (bitmap master) + nat offset"
    using n assms(2) by (simp add: appendStrip_def Let_def nat_add_distrib)
  show "wellFormed (appendStrip w h cropBottom frameData offset master)"
    unfolding wellFormed_def 1 3 using n assms(2) by (simp add: nat_add_distrib)
qed

lemma appendStrip_keeps:
  assumes "wellFormed master" "0 < offset" "y < length (bitmap master)"
  shows "bitmap (appendStrip w h cropBottom frameData offset master) ! y = bitmap master ! y"
proof -
  let ?temp = "drawCanvas master (setHeight (height master) (setWidth w createCanvas))"
  let ?m1 = "setHeight (height master + offset) master"
  let ?m2 = "drawCanvas ?temp ?m1"
  have n: "0 \<le> height master + offset" "0 \<le> height master"
    "length (bitmap master) = nat (height master)"
    using assms by (simp_all add: wellFormed_def)
  have temp: "bitmap ?temp = bitmap master" using assms(1) by (rule tempCanvas_bitmap)
  have y1: "y < length (bitmap ?m1)" using n assms(2,3) by simp
  have y2: "y < length (bitmap ?m2)" using y1 by simp
  have h2: "height ?m2 = height master + offset" using n by simp
  have "bitmap ?m2 ! y = bitmap master ! y"
    using assms(3) by (simp add: drawCanvas_nth [OF y1] temp)
  moreover have "\<not> (height ?m2 - offset \<le> int y)"
    unfolding h2 using assms(3) n by simp
  ultimately show ?thesis
    unfolding appendStrip_def Let_def by (simp only: drawImage_nth [OF y2] if_False simp_thms)
qed

lemma appendStrip_prefix:
  assumes "wellFormed master" "0 < offset"
  shows "take (length (bitmap master)) (bitmap (appendStrip w h cropBottom frameData offset master))
           = bitmap master"
proof (rule nth_equalityI)
  show "length (take (length (bitmap master))
          (bitmap (appendStrip w h cropBottom frameData offset master))) = length (bitmap master)"
    by (simp add: appendStrip_sel(3) [OF assms])
next
  fix y assume "y < length (take (length (bitmap master))
          (bitmap (appendStrip w h cropBottom frameData offset master)))"
  then have y: "y < length (bitmap master)" by simp
  then show "take (length (bitmap master))
          (bitmap (appendStrip w h cropBottom frameData offset master)) ! y = bitmap master ! y"
    by (simp add: appendStrip_keeps [OF assms y])
qed

lemma appendAll_props:
  assumes "\<forall>(frameData, offset)\<in>set strips. 0 < offset" "wellFormed master"
  shows "height (appendAll w h cropBottom strips master) = height master + sum_list (map snd strips)
     \<and> width (appendAll w h cropBottom strips master) = width master
     \<and> take (length (bitmap master)) (bitmap (appendAll w h cropBottom strips master)) = bitmap master
     \<and> wellFormed (appendAll w h cropBottom strips master)"
  using assms
proof (induction strips arbitrary: master)
  case Nil
  then show ?case by (simp add: appendAll_def)
next
  case (Cons p strips)
  obtain f d where p: "p = (f, d)" by (cases p)
  let ?m = "appendStrip w h cropBottom f d master"
  have d: "0 < d" using Cons.prems(1) p by simp
  note a = appendStrip_sel [OF Cons.prems(2) d, of w h cropBottom f]
  have step: "appendAll w h cropBottom (p # strips) master = appendAll w h cropBottom strips ?m"
    by (simp add: appendAll_def p)
  have rest: "\<forall>(frameData, offset)\<in>set strips. 0 < offset" using Cons.prems(1) by simp
  from Cons.IH [OF rest a(4)] have ih:
    "height (appendAll w h cropBottom strips ?m) = height ?m + sum_list (map snd strips)"
    "width (appendAll w h cropBottom strips ?m) = width ?m"
    "take (length (bitmap ?m)) (bitmap (appendAll w h cropBottom strips ?m)) = bitmap ?m"
    "wellFormed (appendAll w h cropBottom strips ?m)"
    by auto
  have "take (length (bitmap master)) (bitmap (appendAll w h cropBottom strips ?m))
        = take (length (bitmap master)) (take (length (bitmap ?m)) (bitmap (appendAll w h cropBottom strips ?m)))"
    by (simp add: a(3) min_def)
  also have "\<dots> = bitmap master"
    unfolding ih(3) by (rule appendStrip_prefix [OF Cons.prems(2) d])
  finally have pre: "take (length (bitmap master)) (bitmap (appendAll w h cropBottom strips ?m)) = bitmap master" .
  show ?case
    unfolding step using ih a pre by (simp add: p)
qed

lemma initialState_wellFormed: "wellFormed (masterCanvas (initialState video cropBottom))"
  by (simp add: initialState_def Let_def wellFormed_def setHeight_def)

lemma initialState_height:
  "cropBottom \<le> videoHeight video \<Longrightarrow>
   height (masterCanvas (initialState video cropBottom)) = videoHeight video - cropBottom"
  by (simp add: initialState_def Let_def)


subsection \<open>The sampling loop\<close>

lemma loopBody_progress:
  "progressCalls (loopBody video cropTop cropBottom time s)
     = progressCalls s @ [dblMul (dblDiv time (duration video)) 100]"
  by (simp add: loopBody_def Let_def split: option.split)

text \<open>
  The master canvas starts with the height \<open>height - cropBottom\<close> and only grows. As
  long as it is empty no strip is appended to it, so the copy to the temporary canvas
  in the loop body never has an empty source.
\<close>

lemma loopBody_empty_master:
  assumes "0 < videoWidth video" and "cropBottom = videoHeight video"
  shows "masterCanvas (loopBody video cropTop cropBottom time s) = masterCanvas s"
  using findOffset_empty_master [OF assms(1)] assms(2)
  by (simp add: loopBody_def Let_def split: option.split)

lemma appendFooter_progress:
  "appendFooter video cropBottom s = Inr s' \<Longrightarrow> progressCalls s' = progressCalls s"
  by (auto simp: appendFooter_def Let_def split: if_splits)

lemma progressInv_step:
  assumes "0 < duration video" "time < duration video" "progressInv video time s"
  shows "progressInv video (dblAdd time step) (loopBody video cropTop cropBottom time s)"
proof -
  let ?d = "duration video"
  let ?s1 = "loopBody video cropTop cropBottom time s"
  let ?t1 = "dblAdd time step"
  let ?p = "dblMul (dblDiv time ?d) 100"
  have t0: "0 \<le> time" and td: "roundDouble time = time" and so: "sorted (progressCalls s)"
    and old: "\<forall>p\<in>set (progressCalls s). 0 \<le> p \<and> p \<le> 100 \<and> p \<le> ?p"
    using assms(3) by (simp_all add: progressInv_def)
  have p0: "0 \<le> ?p" and p100: "?p \<le> 100"
    using progress_bounds [OF assms(1) t0 assms(2)] by simp_all
  have t1: "time \<le> ?t1" "roundDouble ?t1 = ?t1" using dblAdd_step [OF t0 td] by simp_all
  have pnext: "?p \<le> dblMul (dblDiv ?t1 ?d) 100" using assms(1) t0 t1(1) by (rule progress_mono)
  have pc: "progressCalls ?s1 = progressCalls s @ [?p]" by (rule loopBody_progress)
  have a: "0 \<le> ?t1" using t0 t1(1) by linarith
  have b: "sorted (progressCalls ?s1)"
    unfolding pc using so old by (simp add: sorted_append)
  have c: "\<forall>q\<in>set (progressCalls ?s1).
             0 \<le> q \<and> q \<le> 100 \<and> q \<le> dblMul (dblDiv ?t1 ?d) 100"
    unfolding pc using old p0 p100 pnext by auto
  show ?thesis unfolding progressInv_def using a t1(2) b c by blast
qed

lemma stitchLoop_progress:
  assumes "stitchLoop video cropTop cropBottom time s = Some s'"
    and "0 < duration video" "progressInv video time s"
  shows "sorted (progressCalls s') \<and> (\<forall>p\<in>set (progressCalls s'). 0 \<le> p \<and> p \<le> 100)"
proof -
  have "0 < duration video \<longrightarrow> progressInv video time s \<longrightarrow>
          sorted (progressCalls s') \<and> (\<forall>p\<in>set (progressCalls s'). 0 \<le> p \<and> p \<le> 100)"
  proof (rule stitchLoop.raw_induct
      [where P = "\<lambda>video cropTop cropBottom time s s'.
         0 < duration video \<longrightarrow> progressInv video time s \<longrightarrow>
           sorted (progressCalls s') \<and> (\<forall>p\<in>set (progressCalls s'). 0 \<le> p \<and> p \<le> 100)",
       OF _ assms(1)])
    fix loop :: "Video \<Rightarrow> int \<Rightarrow> int \<Rightarrow> real \<Rightarrow> StitchState \<Rightarrow> StitchState option"
    fix video cropTop cropBottom time s s'
    assume IH: "\<And>video cropTop cropBottom time s s'.
        loop video cropTop cropBottom time s = Some s' \<Longrightarrow>
        0 < duration video \<longrightarrow> progressInv video time s \<longrightarrow>
          sorted (progressCalls s') \<and> (\<forall>p\<in>set (progressCalls s'). 0 \<le> p \<and> p \<le> 100)"
    assume body: "(if time < duration video
                   then loop video cropTop cropBottom (dblAdd time step)
                          (loopBody video cropTop cropBottom time s)
                   else Some s) = Some s'"
    show "0 < duration video \<longrightarrow> progressInv video time s \<longrightarrow>
          sorted (progressCalls s') \<and> (\<forall>p\<in>set (progressCalls s'). 0 \<le> p \<and> p \<le> 100)"
    proof (intro impI)
      assume d: "0 < duration video" and inv: "progressInv video time s"
      show "sorted (progressCalls s') \<and> (\<forall>p\<in>set (progressCalls s'). 0 \<le> p \<and> p \<le> 100)"
      proof (cases "time < duration video")
        case False
        then have "s' = s" using body by simp
        then show ?thesis using inv by (simp add: progressInv_def)
      next
        case True
        then have run: "loop video cropTop cropBottom (dblAdd time step)
                          (loopBody video cropTop cropBottom time s) = Some s'"
          using body by simp
        from IH [OF run] d progressInv_step [OF d True inv, of cropTop cropBottom]
        show ?thesis by blast
      qed
    qed
  qed
  then show ?thesis using assms(2,3) by blast
qed

lemma stitchLoop_terminates:
  assumes "duration video \<le> 2 ^ 49" "0 \<le> time"
  shows "\<exists>s'. stitchLoop video cropTop cropBottom time s = Some s'"
  using assms(2)
proof (induction "nat \<lceil>(duration video - time) * 32\<rceil>" arbitrary: time s rule: less_induct)
  case less
  let ?d = "duration video"
  show ?case
  proof (cases "time < ?d")
    case False
    then have "stitchLoop video cropTop cropBottom time s = Some s"
      by (subst stitchLoop.simps) simp
    then show ?thesis by blast
  next
    case True
    let ?t1 = "dblAdd time step"
    have "time < 2 ^ 49" using True assms(1) by linarith
    then have g: "time + 1 / 32 \<le> ?t1" using less.prems by (intro dblAdd_step_grows)
    then have "(?d - ?t1) * 32 \<le> (?d - time) * 32 - 1" by simp
    then have "\<lceil>(?d - ?t1) * 32\<rceil> \<le> \<lceil>(?d - time) * 32 - 1\<rceil>" by (rule ceiling_mono)
    then have c: "\<lceil>(?d - ?t1) * 32\<rceil> \<le> \<lceil>(?d - time) * 32\<rceil> - 1" by simp
    have "0 < (?d - time) * 32" using True by simp
    then have "0 < \<lceil>(?d - time) * 32\<rceil>" by (simp add: ceiling_less_iff)
    with c have m: "nat \<lceil>(?d - ?t1) * 32\<rceil> < nat \<lceil>(?d - time) * 32\<rceil>" by linarith
    have "0 \<le> ?t1" using g less.prems by linarith
    from less.hyps [OF m this] obtain s' where
      "stitchLoop video cropTop cropBottom ?t1 (loopBody video cropTop cropBottom time s) = Some s'"
      by blast
    then have "stitchLoop video cropTop cropBottom time s = Some s'"
      using True by (subst stitchLoop.simps) simp
    then show ?thesis by blast
  qed
qed

lemma findOffset_flat:
  "findOffset (bandFrame 1 50 7 0 0) (bandFrame 1 50 7 0 0) 1 50 0 0 = 0"
  using scanResult_flat by (simp add: findOffset_def searchHeightOf_def)

subsection \<open>Evaluation of a run of one second\<close>

lemma progress_at_1: "dblMul (dblDiv (3602879701896397 / 36028797018963968) 1) 100 = 10"
proof -
  have a: "roundDouble (3602879701896397 / 36028797018963968 / 1) = of_int 7205759403792794 * 2 powi (- 4 - 52)"
    by (rule roundDouble_eqI) simp_all
  have b: "of_int 7205759403792794 * 2 powi (- 4 - 52) = (3602879701896397 / 36028797018963968 :: real)"
    by simp
  have c: "roundDouble (3602879701896397 / 36028797018963968 * 100) = of_int 5629499534213120 * 2 powi (3 - 52)"
    by (rule roundDouble_eqI) simp_all
  show ?thesis
    unfolding dblMul_def dblDiv_def a b c by simp
qed

lemma time_after_1: "dblAdd (3602879701896397 / 36028797018963968) (3602879701896397 / 36028797018963968) = 3602879701896397 / 18014398509481984"
proof -
  have "roundDouble (3602879701896397 / 36028797018963968 + 3602879701896397 / 36028797018963968) = of_int 7205759403792794 * 2 powi (- 3 - 52)"
    by (rule roundDouble_eqI) simp_all
  then show ?thesis by (simp add: dblAdd_def)
qed

lemma progress_at_2: "dblMul (dblDiv (3602879701896397 / 18014398509481984) 1) 100 = 20"
proof -
  have a: "roundDouble (3602879701896397 / 18014398509481984 / 1) = of_int 7205759403792794 * 2 powi (- 3 - 52)"
    by (rule roundDouble_eqI) simp_all
  have b: "of_int 7205759403792794 * 2 powi (- 3 - 52) = (3602879701896397 / 18014398509481984 :: real)"
    by simp
  have c: "roundDouble (3602879701896397 / 18014398509481984 * 100) = of_int 5629499534213120 * 2 powi (4 - 52)"
    by (rule roundDouble_eqI) simp_all
  show ?thesis
    unfolding dblMul_def dblDiv_def a b c by simp
qed

lemma time_after_2: "dblAdd (3602879701896397 / 18014398509481984) (3602879701896397 / 36028797018963968) = 1351079888211149 / 4503599627370496"
proof -
  have "roundDouble (3602879701896397 / 18014398509481984 + 3602879701896397 / 36028797018963968) = of_int 5404319552844596 * 2 powi (- 2 - 52)"
    by (rule roundDouble_eqI) simp_all
  then show ?thesis by (simp add: dblAdd_def)
qed

lemma progress_at_3: "dblMul (dblDiv (1351079888211149 / 4503599627370496) 1) 100 = 8444249301319681 / 281474976710656"
proof -
  have a: "roundDouble (1351079888211149 / 4503599627370496 / 1) = of_int 5404319552844596 * 2 powi (- 2 - 52)"
    by (rule roundDouble_eqI) simp_all
  have b: "of_int 5404319552844596 * 2 powi (- 2 - 52) = (1351079888211149 / 4503599627370496 :: real)"
    by simp
  have c: "roundDouble (1351079888211149 / 4503599627370496 * 100) = of_int 8444249301319681 * 2 powi (4 - 52)"
    by (rule roundDouble_eqI) simp_all
  show ?thesis
    unfolding dblMul_def dblDiv_def a b c by simp
qed

lemma time_after_3: "dblAdd (1351079888211149 / 4503599627370496) (3602879701896397 / 36028797018963968) = 3602879701896397 / 9007199254740992"
proof -
  have "roundDouble (1351079888211149 / 4503599627370496 + 3602879701896397 / 36028797018963968) = of_int 7205759403792794 * 2 powi (- 2 - 52)"
    by (rule roundDouble_eqI) simp_all
  then show ?thesis by (simp add: dblAdd_def)
qed

lemma progress_at_4: "dblMul (dblDiv (3602879701896397 / 9007199254740992) 1) 100 = 40"
proof -
  have a: "roundDouble (3602879701896397 / 9007199254740992 / 1) = of_int 7205759403792794 * 2 powi (- 2 - 52)"
    by (rule roundDouble_eqI) simp_all
  have b: "of_int 7205759403792794 * 2 powi (- 2 - 52) = (3602879701896397 / 9007199254740992 :: real)"
    by simp
  have c: "roundDouble (3602879701896397 / 9007199254740992 * 100) = of_int 5629499534213120 * 2 powi (5 - 52)"
    by (rule roundDouble_eqI) simp_all
  show ?thesis
    unfolding dblMul_def dblDiv_def a b c by simp
qed

lemma time_after_4: "dblAdd (3602879701896397 / 9007199254740992) (3602879701896397 / 36028797018963968) = 1 / 2"
proof -
  have "roundDouble (3602879701896397 / 9007199254740992 + 3602879701896397 / 36028797018963968) = of_int 4503599627370496 * 2 powi (- 1 - 52)"
    by (rule roundDouble_eqI) simp_all
  then show ?thesis by (simp add: dblAdd_def)
qed

lemma progress_at_5: "dblMul (dblDiv (1 / 2) 1) 100 = 50"
proof -
  have a: "roundDouble (1 / 2 / 1) = of_int 4503599627370496 * 2 powi (- 1 - 52)"
    by (rule roundDouble_eqI) simp_all
  have b: "of_int 4503599627370496 * 2 powi (- 1 - 52) = (1 / 2 :: real)"
    by simp
  have c: "roundDouble (1 / 2 * 100) = of_int 7036874417766400 * 2 powi (5 - 52)"
    by (rule roundDouble_eqI) simp_all
  show ?thesis
    unfolding dblMul_def dblDiv_def a b c by simp
qed

lemma time_after_5: "dblAdd (1 / 2) (3602879701896397 / 36028797018963968) = 5404319552844595 / 9007199254740992"
proof -
  have "roundDouble (1 / 2 + 3602879701896397 / 36028797018963968) = of_int 5404319552844595 * 2 powi (- 1 - 52)"
    by (rule roundDouble_eqI) simp_all
  then show ?thesis by (simp add: dblAdd_def)
qed

lemma progress_at_6: "dblMul (dblDiv (5404319552844595 / 9007199254740992) 1) 100 = 60"
proof -
  have a: "roundDouble (5404319552844595 / 9007199254740992 / 1) = of_int 5404319552844595 * 2 powi (- 1 - 52)"
    by (rule roundDouble_eqI) simp_all
  have b: "of_int 5404319552844595 * 2 powi (- 1 - 52) = (5404319552844595 / 9007199254740992 :: real)"
    by simp
  have c: "roundDouble (5404319552844595 / 9007199254740992 * 100) = of_int 8444249301319680 * 2 powi (5 - 52)"
    by (rule roundDouble_eqI) simp_all
  show ?thesis
    unfolding dblMul_def dblDiv_def a b c by simp
qed

lemma time_after_6: "dblAdd (5404319552844595 / 9007199254740992) (3602879701896397 / 36028797018963968) = 3152519739159347 / 4503599627370496"
proof -
  have "roundDouble (5404319552844595 / 9007199254740992 + 3602879701896397 / 36028797018963968) = of_int 6305039478318694 * 2 powi (- 1 - 52)"
    by (rule roundDouble_eqI) simp_all
  then show ?thesis by (simp add: dblAdd_def)
qed

lemma progress_at_7: "dblMul (dblDiv (3152519739159347 / 4503599627370496) 1) 100 = 70"
proof -
  have a: "roundDouble (3152519739159347 / 4503599627370496 / 1) = of_int 6305039478318694 * 2 powi (- 1 - 52)"
    by (rule roundDouble_eqI) simp_all
  have b: "of_int 6305039478318694 * 2 powi (- 1 - 52) = (3152519739159347 / 4503599627370496 :: real)"
    by simp
  have c: "roundDouble (3152519739159347 / 4503599627370496 * 100) = of_int 4925812092436480 * 2 powi (6 - 52)"
    by (rule roundDouble_eqI) simp_all
  show ?thesis
    unfolding dblMul_def dblDiv_def a b c by simp
qed

lemma time_after_7: "dblAdd (3152519739159347 / 4503599627370496) (3602879701896397 / 36028797018963968) = 7205759403792793 / 9007199254740992"
proof -
  have "roundDouble (3152519739159347 / 4503599627370496 + 3602879701896397 / 36028797018963968) = of_int 7205759403792793 * 2 powi (- 1 - 52)"
    by (rule roundDouble_eqI) simp_all
  then show ?thesis by (simp add: dblAdd_def)
qed

lemma progress_at_8: "dblMul (dblDiv (7205759403792793 / 9007199254740992) 1) 100 = 80"
proof -
  have a: "roundDouble (7205759403792793 / 9007199254740992 / 1) = of_int 7205759403792793 * 2 powi (- 1 - 52)"
    by (rule roundDouble_eqI) simp_all
  have b: "of_int 7205759403792793 * 2 powi (- 1 - 52) = (7205759403792793 / 9007199254740992 :: real)"
    by simp
  have c: "roundDouble (7205759403792793 / 9007199254740992 * 100) = of_int 5629499534213120 * 2 powi (6 - 52)"
    by (rule roundDouble_eqI) simp_all
  show ?thesis
    unfolding dblMul_def dblDiv_def a b c by simp
qed

lemma time_after_8: "dblAdd (7205759403792793 / 9007199254740992) (3602879701896397 / 36028797018963968) = 2026619832316723 / 2251799813685248"
proof -
  have "roundDouble (7205759403792793 / 9007199254740992 + 3602879701896397 / 36028797018963968) = of_int 8106479329266892 * 2 powi (- 1 - 52)"
    by (rule roundDouble_eqI) simp_all
  then show ?thesis by (simp add: dblAdd_def)
qed

lemma progress_at_9: "dblMul (dblDiv (2026619832316723 / 2251799813685248) 1) 100 = 6333186975989759 / 70368744177664"
proof -
  have a: "roundDouble (2026619832316723 / 2251799813685248 / 1) = of_int 8106479329266892 * 2 powi (- 1 - 52)"
    by (rule roundDouble_eqI) simp_all
  have b: "of_int 8106479329266892 * 2 powi (- 1 - 52) = (2026619832316723 / 2251799813685248 :: real)"
    by simp
  have c: "roundDouble (2026619832316723 / 2251799813685248 * 100) = of_int 6333186975989759 * 2 powi (6 - 52)"
    by (rule roundDouble_eqI) simp_all
  show ?thesis
    unfolding dblMul_def dblDiv_def a b c by simp
qed

lemma time_after_9: "dblAdd (2026619832316723 / 2251799813685248) (3602879701896397 / 36028797018963968) = 9007199254740991 / 9007199254740992"
proof -
  have "roundDouble (2026619832316723 / 2251799813685248 + 3602879701896397 / 36028797018963968) = of_int 9007199254740991 * 2 powi (- 1 - 52)"
    by (rule roundDouble_eqI) simp_all
  then show ?thesis by (simp add: dblAdd_def)
qed

lemma progress_at_10: "dblMul (dblDiv (9007199254740991 / 9007199254740992) 1) 100 = 7036874417766399 / 70368744177664"
proof -
  have a: "roundDouble (9007199254740991 / 9007199254740992 / 1) = of_int 9007199254740991 * 2 powi (- 1 - 52)"
    by (rule roundDouble_eqI) simp_all
  have b: "of_int 9007199254740991 * 2 powi (- 1 - 52) = (9007199254740991 / 9007199254740992 :: real)"
    by simp
  have c: "roundDouble (9007199254740991 / 9007199254740992 * 100) = of_int 7036874417766399 * 2 powi (6 - 52)"
    by (rule roundDouble_eqI) simp_all
  show ?thesis
    unfolding dblMul_def dblDiv_def a b c by simp
qed

lemma time_after_10: "dblAdd (9007199254740991 / 9007199254740992) (3602879701896397 / 36028797018963968) = 4953959590107545 / 4503599627370496"
proof -
  have "roundDouble (9007199254740991 / 9007199254740992 + 3602879701896397 / 36028797018963968) = of_int 4953959590107545 * 2 powi (0 - 52)"
    by (rule roundDouble_eqI) simp_all
  then show ?thesis by (simp add: dblAdd_def)
qed

lemma stitchLoop_example:
  "stitchLoop (stillVideo 1 50 1 (bandFrame 1 50 7 0 0)) 0 0 step (initialState (stillVideo 1 50 1 (bandFrame 1 50 7 0 0)) 0) = Some exampleRun"
proof -
  let ?v = "stillVideo 1 50 1 (bandFrame 1 50 7 0 0)"
  let ?s0 = "initialState ?v 0"
  let ?s1 = "loopBody ?v 0 0 (3602879701896397 / 36028797018963968) ?s0"
  let ?s2 = "loopBody ?v 0 0 (3602879701896397 / 18014398509481984) ?s1"
  let ?s3 = "loopBody ?v 0 0 (1351079888211149 / 4503599627370496) ?s2"
  let ?s4 = "loopBody ?v 0 0 (3602879701896397 / 9007199254740992) ?s3"
  let ?s5 = "loopBody ?v 0 0 (1 / 2) ?s4"
  let ?s6 = "loopBody ?v 0 0 (5404319552844595 / 9007199254740992) ?s5"
  let ?s7 = "loopBody ?v 0 0 (3152519739159347 / 4503599627370496) ?s6"
  let ?s8 = "loopBody ?v 0 0 (7205759403792793 / 9007199254740992) ?s7"
  let ?s9 = "loopBody ?v 0 0 (2026619832316723 / 2251799813685248) ?s8"
  let ?s10 = "loopBody ?v 0 0 (9007199254740991 / 9007199254740992) ?s9"
  have e1: "stitchLoop ?v 0 0 (3602879701896397 / 36028797018963968) ?s0 = stitchLoop ?v 0 0 (3602879701896397 / 18014398509481984) ?s1"
    by (subst stitchLoop.simps) (simp add: step_value time_after_1)
  have e2: "stitchLoop ?v 0 0 (3602879701896397 / 18014398509481984) ?s1 = stitchLoop ?v 0 0 (1351079888211149 / 4503599627370496) ?s2"
    by (subst stitchLoop.simps) (simp add: step_value time_after_2)
  have e3: "stitchLoop ?v 0 0 (1351079888211149 / 4503599627370496) ?s2 = stitchLoop ?v 0 0 (3602879701896397 / 9007199254740992) ?s3"
    by (subst stitchLoop.simps) (simp add: step_value time_after_3)
  have e4: "stitchLoop ?v 0 0 (3602879701896397 / 9007199254740992) ?s3 = stitchLoop ?v 0 0 (1 / 2) ?s4"
    by (subst stitchLoop.simps) (simp add: step_value time_after_4)
  have e5: "stitchLoop ?v 0 0 (1 / 2) ?s4 = stitchLoop ?v 0 0 (5404319552844595 / 9007199254740992) ?s5"
    by (subst stitchLoop.simps) (simp add: step_value time_after_5)
  have e6: "stitchLoop ?v 0 0 (5404319552844595 / 9007199254740992) ?s5 = stitchLoop ?v 0 0 (3152519739159347 / 4503599627370496) ?s6"
    by (subst stitchLoop.simps) (simp add: step_value time_after_6)
  have e7: "stitchLoop ?v 0 0 (3152519739159347 / 4503599627370496) ?s6 = stitchLoop ?v 0 0 (7205759403792793 / 9007199254740992) ?s7"
    by (subst stitchLoop.simps) (simp add: step_value time_after_7)
  have e8: "stitchLoop ?v 0 0 (7205759403792793 / 9007199254740992) ?s7 = stitchLoop ?v 0 0 (2026619832316723 / 2251799813685248) ?s8"
    by (subst stitchLoop.simps) (simp add: step_value time_after_8)
  have e9: "stitchLoop ?v 0 0 (2026619832316723 / 2251799813685248) ?s8 = stitchLoop ?v 0 0 (9007199254740991 / 9007199254740992) ?s9"
    by (subst stitchLoop.simps) (simp add: step_value time_after_9)
  have e10: "stitchLoop ?v 0 0 (9007199254740991 / 9007199254740992) ?s9 = stitchLoop ?v 0 0 (4953959590107545 / 4503599627370496) ?s10"
    by (subst stitchLoop.simps) (simp add: step_value time_after_10)
  have e11: "stitchLoop ?v 0 0 (4953959590107545 / 4503599627370496) ?s10 = Some ?s10"
    by (subst stitchLoop.simps) simp
  have "stitchLoop ?v 0 0 step ?s0 = stitchLoop ?v 0 0 (3602879701896397 / 36028797018963968) ?s0"
    by (simp add: step_value)
  also note e1
  also note e2
  also note e3
  also note e4
  also note e5
  also note e6
  also note e7
  also note e8
  also note e9
  also note e10
  also note e11
  finally show ?thesis unfolding exampleRun_def .
qed

lemma progressCalls_example:
  "progressCalls exampleRun = [10, 20, 8444249301319681 / 281474976710656, 40, 50, 60, 70, 80, 6333186975989759 / 70368744177664, 7036874417766399 / 70368744177664]"
  unfolding exampleRun_def
  by (simp add: loopBody_progress progress_at_1 progress_at_2 progress_at_3 progress_at_4 progress_at_5 progress_at_6 progress_at_7 progress_at_8 progress_at_9 progress_at_10
      initialState_def Let_def)

lemma stitchVideo_example:
  "stitchVideo True \<lparr>videoUrl = stillVideo 1 50 1 (bandFrame 1 50 7 0 0), cropMask = None\<rparr>
   = Some (Inr (exampleRun\<lparr>progressCalls := progressCalls exampleRun @ [100]\<rparr>))"
  using stitchLoop_example by (simp add: stitchVideo_def appendFooter_def)

subsection \<open>Claims about the compositor and the pipeline\<close>

text \<open>
  Claim C3. An append (the body of \<open>if (offset > 0)\<close>, so with a positive offset) on
  a canvas leaves every row that the canvas had, and so every byte of it, as it was,
  grows the height by exactly the offset and keeps the width. Starting from the
  initial buffer, whose height is \<open>H - cropBottom\<close>, the appends with the offsets
  \<open>d1, ..., dN\<close> give a buffer of height \<open>H - cropBottom + (d1 + ... + dN)\<close> and of
  the same width, whose first rows are the rows of the initial buffer.
\<close>

theorem appendStrip_append_only:
  "(wellFormed master \<and> 0 < offset \<longrightarrow>
      (\<forall>y<length (bitmap master).
         bitmap (appendStrip w h cropBottom frameData offset master) ! y = bitmap master ! y)
      \<and> height (appendStrip w h cropBottom frameData offset master) = height master + offset
      \<and> width (appendStrip w h cropBottom frameData offset master) = width master
      \<and> wellFormed (appendStrip w h cropBottom frameData offset master))
   \<and> (cropBottom \<le> videoHeight video \<and> (\<forall>(f, d)\<in>set strips. 0 < d) \<longrightarrow>
      height (appendAll (videoWidth video) (videoHeight video) cropBottom strips
                (masterCanvas (initialState video cropBottom)))
        = videoHeight video - cropBottom + sum_list (map snd strips)
      \<and> width (appendAll (videoWidth video) (videoHeight video) cropBottom strips
                (masterCanvas (initialState video cropBottom)))
        = width (masterCanvas (initialState video cropBottom))
      \<and> take (length (bitmap (masterCanvas (initialState video cropBottom))))
           (bitmap (appendAll (videoWidth video) (videoHeight video) cropBottom strips
                      (masterCanvas (initialState video cropBottom))))
        = bitmap (masterCanvas (initialState video cropBottom)))"
proof -
  have one: "(\<forall>y<length (bitmap master).
         bitmap (appendStrip w h cropBottom frameData offset master) ! y = bitmap master ! y)
      \<and> height (appendStrip w h cropBottom frameData offset master) = height master + offset
      \<and> width (appendStrip w h cropBottom frameData offset master) = width master
      \<and> wellFormed (appendStrip w h cropBottom frameData offset master)"
    if "wellFormed master" "0 < offset"
    using appendStrip_keeps [OF that] appendStrip_sel [OF that] by simp
  have many: "height (appendAll (videoWidth video) (videoHeight video) cropBottom strips
                (masterCanvas (initialState video cropBottom)))
        = videoHeight video - cropBottom + sum_list (map snd strips)
      \<and> width (appendAll (videoWidth video) (videoHeight video) cropBottom strips
                (masterCanvas (initialState video cropBottom)))
        = width (masterCanvas (initialState video cropBottom))
      \<and> take (length (bitmap (masterCanvas (initialState video cropBottom))))
           (bitmap (appendAll (videoWidth video) (videoHeight video) cropBottom strips
                      (masterCanvas (initialState video cropBottom))))
        = bitmap (masterCanvas (initialState video cropBottom))"
    if "cropBottom \<le> videoHeight video" "\<forall>(f, d)\<in>set strips. 0 < d"
    using appendAll_props [OF that(2) initialState_wellFormed, of "videoWidth video"
        "videoHeight video" cropBottom video cropBottom]
      initialState_height [OF that(1)] by simp
  from one many show ?thesis by blast
qed

theorem appendStrip_append_only_witness:
  "wellFormed (masterCanvas (initialState (stillVideo 1 50 1 (rampFrame 1 50 0)) 0))
   \<and> (0::int) < 2
   \<and> height (appendStrip 1 50 0 (rampFrame 1 50 2) 2
        (masterCanvas (initialState (stillVideo 1 50 1 (rampFrame 1 50 0)) 0))) = 52
   \<and> height (appendAll 1 50 0 [(rampFrame 1 50 2, 2), (rampFrame 1 50 6, 4)]
        (masterCanvas (initialState (stillVideo 1 50 1 (rampFrame 1 50 0)) 0))) = 56"
proof -
  let ?v = "stillVideo 1 50 1 (rampFrame 1 50 0)"
  let ?m = "masterCanvas (initialState ?v 0)"
  have wf: "wellFormed ?m" by (rule initialState_wellFormed)
  have h0: "height ?m = 50" using initialState_height [of 0 ?v] by simp
  have pos: "(0::int) < 2" by simp
  have strips: "(0::int) \<le> videoHeight ?v"
    "\<forall>(f, d)\<in>set [(rampFrame 1 50 2, 2 :: int), (rampFrame 1 50 6, 4)]. 0 < d"
    by simp_all
  from appendStrip_append_only [where master = ?m and offset = 2 and w = 1 and h = 50
      and cropBottom = 0 and frameData = "rampFrame 1 50 2" and video = ?v
      and strips = "[(rampFrame 1 50 2, 2), (rampFrame 1 50 6, 4)]"] wf pos strips h0
  show ?thesis unfolding stillVideo_sel by simp
qed

text \<open>
  Claim C8. In an iteration of the sampling loop in which \<open>findOffset\<close> returns 0 no
  append is performed: the master canvas (dimensions and content) and \<open>currentY\<close>
  are unchanged by the iteration. The retained frame \<open>lastFrameData\<close> is replaced
  by the current frame all the same, and the loop goes on with the next sampling time.
\<close>

theorem loopBody_no_match:
  assumes "lastFrameData s = Some lastFrame"
    and "findOffset lastFrame (frameAt video time) (videoWidth video) (videoHeight video)
           cropTop cropBottom = 0"
  shows "masterCanvas (loopBody video cropTop cropBottom time s) = masterCanvas s
     \<and> currentY (loopBody video cropTop cropBottom time s) = currentY s
     \<and> lastFrameData (loopBody video cropTop cropBottom time s) = Some (frameAt video time)
     \<and> (time < duration video \<longrightarrow>
          stitchLoop video cropTop cropBottom time s
          = stitchLoop video cropTop cropBottom (dblAdd time step)
              (loopBody video cropTop cropBottom time s))"
proof -
  have "time < duration video \<longrightarrow>
          stitchLoop video cropTop cropBottom time s
          = stitchLoop video cropTop cropBottom (dblAdd time step)
              (loopBody video cropTop cropBottom time s)"
    by (subst stitchLoop.simps) simp
  then show ?thesis
    using assms by (simp add: loopBody_def Let_def)
qed

theorem loopBody_no_match_witness:
  "lastFrameData (initialState (stillVideo 1 50 1 (bandFrame 1 50 7 0 0)) 0)
     = Some (bandFrame 1 50 7 0 0)
   \<and> findOffset (bandFrame 1 50 7 0 0) (bandFrame 1 50 7 0 0) 1 50 0 0 = 0
   \<and> masterCanvas (loopBody (stillVideo 1 50 1 (bandFrame 1 50 7 0 0)) 0 0 step
        (initialState (stillVideo 1 50 1 (bandFrame 1 50 7 0 0)) 0))
     = masterCanvas (initialState (stillVideo 1 50 1 (bandFrame 1 50 7 0 0)) 0)
   \<and> lastFrameData (loopBody (stillVideo 1 50 1 (bandFrame 1 50 7 0 0)) 0 0 step
        (initialState (stillVideo 1 50 1 (bandFrame 1 50 7 0 0)) 0))
     = Some (bandFrame 1 50 7 0 0)"
proof -
  let ?f = "bandFrame 1 50 7 0 0"
  let ?v = "stillVideo 1 50 1 ?f"
  have l: "lastFrameData (initialState ?v 0) = Some ?f"
    by (simp add: initialState_def Let_def)
  have z: "findOffset ?f (frameAt ?v step) (videoWidth ?v) (videoHeight ?v) 0 0 = 0"
    unfolding stillVideo_sel by (rule findOffset_flat)
  from loopBody_no_match [OF l z] l findOffset_flat show ?thesis
    unfolding stillVideo_sel by blast
qed

text \<open>
  Claim C9. Over a complete run of \<open>stitchVideo\<close> (for every duration, in particular
  for \<open>duration > 0\<close>) every value passed to \<open>onProgress\<close> lies between 0 and 100,
  the sequence of the values is non-decreasing, and its last value is exactly 100.
  The values are the doubles that the code computes. Complete runs exist: for a
  duration of at most \<open>2 ^ 49\<close> seconds the sampling loop ends.
\<close>

theorem stitchVideo_progress:
  "(stitchVideo hasContext options = Some (Inr s) \<longrightarrow>
      (\<forall>p\<in>set (progressCalls s). 0 \<le> p \<and> p \<le> 100)
      \<and> sorted (progressCalls s)
      \<and> progressCalls s \<noteq> []
      \<and> last (progressCalls s) = 100)
   \<and> (duration (videoUrl options) \<le> 2 ^ 49 \<longrightarrow> stitchVideo hasContext options \<noteq> None)"
proof -
  let ?v = "videoUrl options"
  let ?ct = "case cropMask options of None \<Rightarrow> 0 | Some m \<Rightarrow> maskTop m"
  let ?cb = "case cropMask options of None \<Rightarrow> 0 | Some m \<Rightarrow> maskBottom m"
  have complete: "(\<forall>p\<in>set (progressCalls s). 0 \<le> p \<and> p \<le> 100)
      \<and> sorted (progressCalls s) \<and> progressCalls s \<noteq> [] \<and> last (progressCalls s) = 100"
    if run: "stitchVideo hasContext options = Some (Inr s)"
  proof -
    from run obtain s1 s2 where
      loop: "stitchLoop ?v ?ct ?cb step (initialState ?v ?cb) = Some s1"
      and foot: "appendFooter ?v ?cb s1 = Inr s2"
      and s: "s = s2\<lparr>progressCalls := progressCalls s2 @ [100]\<rparr>"
      by (auto simp: stitchVideo_def Let_def split: if_splits option.splits sum.splits)
    have pc: "progressCalls s = progressCalls s1 @ [100]"
      using s appendFooter_progress [OF foot] by simp
    have init: "progressCalls (initialState ?v ?cb) = []"
      by (simp add: initialState_def Let_def)
    have "sorted (progressCalls s1) \<and> (\<forall>p\<in>set (progressCalls s1). 0 \<le> p \<and> p \<le> 100)"
    proof (cases "0 < duration ?v")
      case True
      show ?thesis
        using step_pos step_double
        by (intro stitchLoop_progress [OF loop True]) (simp add: progressInv_def init)
    next
      case False
      then have "\<not> step < duration ?v" using step_pos by linarith
      then have "stitchLoop ?v ?ct ?cb step (initialState ?v ?cb) = Some (initialState ?v ?cb)"
        by (subst stitchLoop.simps) simp
      then have "s1 = initialState ?v ?cb" using loop by simp
      then show ?thesis by (simp add: init)
    qed
    then show ?thesis
      unfolding pc by (auto simp: sorted_append)
  qed
  have ends: "stitchVideo hasContext options \<noteq> None" if "duration ?v \<le> 2 ^ 49"
  proof -
    from stitchLoop_terminates [OF that, of step ?ct ?cb "initialState ?v ?cb"] step_pos
    obtain s1 where "stitchLoop ?v ?ct ?cb step (initialState ?v ?cb) = Some s1" by auto
    then show ?thesis
      by (simp add: stitchVideo_def Let_def split: sum.split)
  qed
  from complete ends show ?thesis by blast
qed

theorem stitchVideo_progress_witness:
  "map_option (map_sum id progressCalls) (stitchVideo True \<lparr>videoUrl = stillVideo 1 50 1 (bandFrame 1 50 7 0 0), cropMask = None\<rparr>)
     = Some (Inr [10, 20, 8444249301319681 / 281474976710656, 40, 50, 60, 70, 80, 6333186975989759 / 70368744177664, 7036874417766399 / 70368744177664, 100])
   \<and> sorted ([10, 20, 8444249301319681 / 281474976710656, 40, 50, 60, 70, 80, 6333186975989759 / 70368744177664, 7036874417766399 / 70368744177664, 100 :: real])
   \<and> last ([10, 20, 8444249301319681 / 281474976710656, 40, 50, 60, 70, 80, 6333186975989759 / 70368744177664, 7036874417766399 / 70368744177664, 100 :: real]) = 100
   \<and> duration (videoUrl \<lparr>videoUrl = stillVideo 1 50 1 (bandFrame 1 50 7 0 0), cropMask = None\<rparr>) \<le> 2 ^ 49"
proof -
  let ?o = "\<lparr>videoUrl = stillVideo 1 50 1 (bandFrame 1 50 7 0 0), cropMask = None\<rparr>"
  let ?s = "exampleRun\<lparr>progressCalls := progressCalls exampleRun @ [100]\<rparr>"
  have d: "duration (videoUrl ?o) \<le> 2 ^ 49" by simp
  have run: "stitchVideo True ?o = Some (Inr ?s)" by (rule stitchVideo_example)
  have pc: "progressCalls ?s = [10, 20, 8444249301319681 / 281474976710656, 40, 50, 60, 70, 80, 6333186975989759 / 70368744177664, 7036874417766399 / 70368744177664, 100]"
    by (simp add: progressCalls_example)
  from stitchVideo_progress [of True ?o ?s] run d show ?thesis
    unfolding run pc by (simp add: progressCalls_example)
qed

end
